theory Spec2Isabelle
  imports Main "HOL-Library.Sublist" "HOL-Library.AList" "HOL-Library.Multiset"
    "HOL-Library.Extended_Nat"
begin

section \<open>Tokens and sequences\<close>

text \<open>
  A JavaScript string is modelled as a \<^typ>\<open>string\<close>; one list element stands for one
  character as the spread \<^verbatim>\<open>[...token]\<close> produces it, so \<^verbatim>\<open>slice(0, n)\<close> is
  \<^const>\<open>take\<close>, \<^verbatim>\<open>slice(n)\<close> is \<^const>\<open>drop\<close> and \<^verbatim>\<open>a.startsWith(b)\<close> is
  \<^term>\<open>prefix b a\<close>.

  A \<^verbatim>\<open>RegExp\<close> object is the host language's; the program reads two things of it, its
  \<^verbatim>\<open>source\<close> text and the result of \<^verbatim>\<open>exec(query)\<close>, of which it uses only
  \<^verbatim>\<open>match[0]\<close>. Both are fields of the model: \<open>exec re q\<close> is \<open>None\<close> when
  \<^verbatim>\<open>exec\<close> returns \<^verbatim>\<open>null\<close> and \<open>Some m\<close> when it returns a match whose text is \<open>m\<close>.
  The result is a function of the query alone, as it is for a pattern without the flags
  \<^verbatim>\<open>g\<close> and \<^verbatim>\<open>y\<close>; where in the query the match lies is the pattern's business, and
  \<^verbatim>\<open>consume\<close> does not look at it.
\<close>

datatype regexp = RegExp (source: string) (exec: "string \<Rightarrow> string option")

datatype token = Str string | Rx regexp

type_synonym sequence = "token list"

datatype error =
    RegexMustStartWithCaret   \<comment> \<open>\<^verbatim>\<open>TypeError("Regex tokens must start with '^'")\<close>\<close>
  | NoLongerAcceptingSequences \<comment> \<open>\<^verbatim>\<open>Error("This PartialPatternTree has been optimized ...")\<close>\<close>
  | AlreadyOptimized          \<comment> \<open>\<^verbatim>\<open>Error("Already optimized.")\<close>\<close>

text \<open>\<^verbatim>\<open>consume(token, query)\<close>: \<open>None\<close> is \<^verbatim>\<open>undefined\<close>.\<close>

definition consume :: "token \<Rightarrow> string \<Rightarrow> string option" where
  "consume token query =
     (if length query = 0 then Some []
      else case token of
        Rx re \<Rightarrow>
          (case exec re query of
             None \<Rightarrow> None
           | Some m \<Rightarrow> Some (drop (length m) query))
      | Str s \<Rightarrow>
          (let subject = take (length s) query
           in if prefix subject s then Some (drop (length s) query) else None))"

text \<open>\<^verbatim>\<open>expandSequence\<close>: the callback of \<^verbatim>\<open>map\<close>, then the \<^verbatim>\<open>map\<close> itself (which
  stops at the first token that throws) followed by \<^verbatim>\<open>flatMap\<close>.\<close>

fun expandToken :: "token \<Rightarrow> error + sequence" where
  "expandToken (Str s) = Inr (map (\<lambda>c. Str [c]) s)"
| "expandToken (Rx re) =
     (if prefix ''^'' (source re) then Inr [Rx re] else Inl RegexMustStartWithCaret)"

fun expandSequence :: "sequence \<Rightarrow> error + sequence" where
  "expandSequence [] = Inr []"
| "expandSequence (t # ts) =
     (case expandToken t of
        Inl e \<Rightarrow> Inl e
      | Inr xs \<Rightarrow>
          (case expandSequence ts of
             Inl e \<Rightarrow> Inl e
           | Inr ys \<Rightarrow> Inr (xs @ ys)))"

section \<open>Nodes\<close>

text \<open>
  A node owns its outgoing edges (\<^verbatim>\<open>branches\<close>) and its terminal values (\<^verbatim>\<open>values\<close>, a
  \<^verbatim>\<open>Map<T, number>\<close>). Both containers iterate in insertion order, which \<^verbatim>\<open>has\<close>,
  \<^verbatim>\<open>optimize\<close> and \<^verbatim>\<open>_search\<close> observe, so both are association lists. No node is
  ever reachable from two places, so the in-place updates of the source are modelled by
  returning the updated node.
\<close>

datatype 'v node = Node (branches: "(token \<times> 'v node) list") (vals: "('v \<times> nat) list")

type_synonym 'v branches = "(token \<times> 'v node) list"

text \<open>The key function the node passes to its \<^verbatim>\<open>AutoCollisionMap\<close>; the third case of
  the source (neither string nor \<^verbatim>\<open>RegExp\<close>) is excluded by the type \<^typ>\<open>token\<close>.\<close>

fun key_of :: "token \<Rightarrow> string" where
  "key_of (Str s) = s"
| "key_of (Rx re) = source re"

text \<open>
  Modelled from the spec: the container \<^verbatim>\<open>AutoCollisionMap\<close> of the package
  \<^verbatim>\<open>@fasteroid/maps\<close>, which the sources import and do not contain. The spec describes it
  as an associative container that canonicalises the key before any lookup and creates the
  entry on first reference (``get-or-create''), scanned in container order. It is modelled
  as a JavaScript \<^verbatim>\<open>Map\<close> from canonical key to the pair of token and child: entries are
  kept in insertion order, \<^verbatim>\<open>get\<close> on a missing key creates its entry at the end,
  \<^verbatim>\<open>set\<close> on a key that is present replaces the entry where it stands, \<^verbatim>\<open>set\<close> on a
  new key appends, and \<^verbatim>\<open>delete\<close> removes the entry. Two tokens with the same canonical
  key (a literal and a pattern whose source is that literal, say) are one key.
\<close>

fun cm_has :: "token \<Rightarrow> 'v branches \<Rightarrow> bool" where
  "cm_has k [] = False"
| "cm_has k ((t, b) # bs) = (if key_of t = key_of k then True else cm_has k bs)"

fun cm_set :: "token \<Rightarrow> 'v node \<Rightarrow> 'v branches \<Rightarrow> 'v branches" where
  "cm_set k v [] = [(k, v)]"
| "cm_set k v ((t, b) # bs) =
     (if key_of t = key_of k then (k, v) # bs else (t, b) # cm_set k v bs)"

text \<open>\<^verbatim>\<open>branches.get(first)\<close> followed by an in-place update \<open>f\<close> of the node it returns:
  an existing child is updated where it stands, a missing one is created (empty) at the end.\<close>

fun cm_get_update :: "token \<Rightarrow> ('v node \<Rightarrow> 'v node) \<Rightarrow> 'v branches \<Rightarrow> 'v branches" where
  "cm_get_update k f [] = [(k, f (Node [] []))]"
| "cm_get_update k f ((t, b) # bs) =
     (if key_of t = key_of k then (t, f b) # bs else (t, b) # cm_get_update k f bs)"

text \<open>\<^verbatim>\<open>Node.addSequence(sequence, value, skipped)\<close>. \<^verbatim>\<open>values.get(value) ?? Infinity\<close>
  is \<open>None\<close> for a value not yet recorded, and then the minimum is \<open>skipped\<close>.\<close>

primrec node_addSequence :: "sequence \<Rightarrow> 'v \<Rightarrow> nat \<Rightarrow> 'v node \<Rightarrow> 'v node" where
  "node_addSequence [] val skipped n =
     Node (branches n)
       (AList.update val
          (case map_of (vals n) val of None \<Rightarrow> skipped | Some c \<Rightarrow> min c skipped)
          (vals n))"
| "node_addSequence (first # rest) val skipped n =
     Node (cm_get_update first (node_addSequence rest val skipped) (branches n)) (vals n)"

text \<open>\<^verbatim>\<open>Node.has(query)\<close>: the loop over the entries, with its \<^verbatim>\<open>continue\<close> and its two
  \<^verbatim>\<open>return\<close>s.\<close>

fun has_loop :: "'v branches \<Rightarrow> string \<Rightarrow> bool" where
  "has_loop [] query = False"
| "has_loop ((token, Node bs vs) # others) query =
     (case consume token query of
        None \<Rightarrow> has_loop others query
      | Some nextQuery \<Rightarrow>
          if length nextQuery = 0 then True else has_loop bs nextQuery)"

definition node_has :: "'v node \<Rightarrow> string \<Rightarrow> bool" where
  "node_has n query = has_loop (branches n) query"

text \<open>
  \<^verbatim>\<open>Node._search\<close>. The accumulator \<^verbatim>\<open>ret\<close> is an \<^verbatim>\<open>AutoMap\<close> whose default is
  \<^verbatim>\<open>Infinity\<close>: for a key that is absent \<^verbatim>\<open>ret.get(k) > v\<close> holds for every recorded
  cost \<open>v\<close>, and the key is then set to \<open>v\<close> at the end of the map; a key that is present
  keeps its place.
\<close>

fun offer :: "('v \<times> nat) \<Rightarrow> ('v \<times> nat) list \<Rightarrow> ('v \<times> nat) list" where
  "offer (k, v) ret =
     (case map_of ret k of
        None \<Rightarrow> AList.update k v ret
      | Some c \<Rightarrow> if c > v then AList.update k v ret else ret)"

fun search_loop :: "'v branches \<Rightarrow> string \<Rightarrow> ('v \<times> nat) list \<Rightarrow> ('v \<times> nat) list" where
  "search_loop [] query ret = ret"
| "search_loop ((token, Node bs vs) # others) query ret =
     (case consume token query of
        None \<Rightarrow> search_loop others query ret
      | Some nextQuery \<Rightarrow>
          (let ret1 = search_loop bs nextQuery ret;
               ret2 = (if nextQuery = [] then fold offer vs ret1 else ret1)
           in search_loop others query ret2))"

definition search_inner :: "'v node \<Rightarrow> string \<Rightarrow> ('v \<times> nat) list" where
  "search_inner n query = search_loop (branches n) query []"

text \<open>\<^verbatim>\<open>Node.search\<close>: \<^verbatim>\<open>Array.prototype.sort\<close> is stable, and so is \<^const>\<open>sort_key\<close>.\<close>

definition node_search :: "'v node \<Rightarrow> string \<Rightarrow> 'v list" where
  "node_search n query = map fst (sort_key snd (search_inner n query))"


text \<open>
  \<^verbatim>\<open>Node.optimize\<close>. The decision taken for one entry \<open>[x, rest]\<close> after
  \<^verbatim>\<open>rest.optimize()\<close> has run: \<open>None\<close> stands for the three ways the loop body ends
  without a change (\<open>x\<close> is not a string; \<open>rest\<close> does not have exactly one branch and no
  values; the key \<open>y\<close> of that branch is not a string), \<open>Some (x + y, child)\<close> for the
  splice. The source nests the size test inside an identical one.
\<close>

definition coalesce :: "token \<Rightarrow> 'v node \<Rightarrow> (token \<times> 'v node) option" where
  "coalesce x rest =
     (case x of
        Rx re \<Rightarrow> None
      | Str xs \<Rightarrow>
          if length (branches rest) = 1 then
            if length (branches rest) = 1 \<and> length (vals rest) = 0 then
              (case hd (branches rest) of
                 (Rx re, child) \<Rightarrow> None
               | (Str ys, child) \<Rightarrow> Some (Str (xs @ ys), child))
            else None
          else None)"

text \<open>
  The loop \<^verbatim>\<open>for (let [x, rest] of this.branches.entries())\<close> runs over the live map:
  \<open>seen\<close> holds the entries before the iterator, in order, and the second argument those
  from the iterator on. \<^verbatim>\<open>delete(x)\<close> removes the current entry (keys of a map are
  distinct); \<^verbatim>\<open>set(x + y, child)\<close> replaces the entry of that key where it stands, before
  or after the iterator, or else appends a new entry, which the iterator reaches later.
\<close>

fun bsize :: "'v branches \<Rightarrow> nat" where
  "bsize [] = 0"
| "bsize ((t, Node bs vs) # others) = Suc (bsize bs + bsize others)"

definition nsize :: "'v node \<Rightarrow> nat" where
  "nsize n = Suc (bsize (branches n))"

function optimize_loop :: "'v branches \<Rightarrow> 'v branches \<Rightarrow> 'v branches" where
  "optimize_loop seen [] = seen"
| "optimize_loop seen ((x, Node bs vs) # todo) =
     (let rest = Node (optimize_loop [] bs) vs in
      case coalesce x rest of
        None \<Rightarrow> optimize_loop (seen @ [(x, rest)]) todo
      | Some (xy, child) \<Rightarrow>
          if cm_has xy seen
          then optimize_loop (cm_set xy child seen) todo
          else optimize_loop seen (cm_set xy child todo))"
  by pat_completeness auto

lemma bsize_Cons: "bsize ((t, n) # others) = nsize n + bsize others"
  by (cases n) (simp add: nsize_def)

lemma bsize_append: "bsize (xs @ ys) = bsize xs + bsize ys"
  by (induction xs rule: bsize.induct) auto

lemma bsize_cm_set: "bsize (cm_set k v bs) \<le> bsize bs + nsize v"
  by (induction bs rule: bsize.induct) (auto simp: bsize_Cons simp del: bsize.simps)

lemma coalesce_size: "coalesce x rest = Some (xy, child) \<Longrightarrow> bsize (branches rest) = nsize child"
  by (cases "branches rest")
     (auto simp: coalesce_def bsize_Cons split: token.splits if_splits prod.splits
           simp del: bsize.simps(2))

text \<open>Optimizing never adds nodes; the loop terminates because every splice discards one.\<close>

lemma optimize_loop_bsize:
  "optimize_loop_dom (seen, todo) \<Longrightarrow> bsize (optimize_loop seen todo) \<le> bsize seen + bsize todo"
proof (induction seen todo rule: optimize_loop.pinduct)
  case (1 seen)
  then show ?case by (simp add: optimize_loop.psimps)
next
  case (2 seen x bs vs todo)
  let ?rest = "Node (optimize_loop [] bs) vs"
  have inner: "bsize (optimize_loop [] bs) \<le> bsize bs" using 2(2) by simp
  show ?case
  proof (cases "coalesce x ?rest")
    case None
    have "bsize (optimize_loop (seen @ [(x, ?rest)]) todo) \<le> bsize (seen @ [(x, ?rest)]) + bsize todo"
      using 2(3)[OF refl None] .
    also have "\<dots> \<le> bsize seen + bsize ((x, Node bs vs) # todo)"
      using inner by (simp add: bsize_append)
    finally show ?thesis using None 2(1) by (simp add: optimize_loop.psimps del: bsize.simps)
  next
    case (Some p)
    obtain xy child where p: "p = (xy, child)" by (cases p)
    have child: "nsize child \<le> bsize bs"
      using coalesce_size[of x ?rest xy child] Some p inner by simp
    show ?thesis
    proof (cases "cm_has xy seen")
      case True
      have "bsize (optimize_loop (cm_set xy child seen) todo) \<le> bsize (cm_set xy child seen) + bsize todo"
        using 2(4)[OF refl Some[unfolded p] refl True] .
      also have "\<dots> \<le> bsize seen + nsize child + bsize todo"
        using bsize_cm_set[of xy child seen] by simp
      also have "\<dots> \<le> bsize seen + bsize ((x, Node bs vs) # todo)"
        using child by simp
      finally show ?thesis using Some p True 2(1)
        by (simp add: optimize_loop.psimps del: bsize.simps)
    next
      case False
      have "bsize (optimize_loop seen (cm_set xy child todo)) \<le> bsize seen + bsize (cm_set xy child todo)"
        using 2(5)[OF refl Some[unfolded p] refl False] .
      also have "\<dots> \<le> bsize seen + (bsize todo + nsize child)"
        using bsize_cm_set[of xy child todo] by simp
      also have "\<dots> \<le> bsize seen + bsize ((x, Node bs vs) # todo)"
        using child by simp
      finally show ?thesis using Some p False 2(1)
        by (simp add: optimize_loop.psimps del: bsize.simps)
    qed
  qed
qed

termination optimize_loop
proof (relation "measure (\<lambda>(seen, todo). bsize todo)", goal_cases)
  case 1
  show ?case by simp
next
  case (2 seen x bs vs todo)
  show ?case by simp
next
  case (3 seen x bs vs todo rest)
  show ?case by simp
next
  case (4 seen x bs vs todo rest p xy child)
  show ?case by simp
next
  case prems: (5 seen x bs vs todo rest p xy child)
  have dom: "optimize_loop_dom ([], bs)" using prems by simp
  have inner: "bsize (optimize_loop [] bs) \<le> bsize bs" using optimize_loop_bsize[OF dom] by simp
  have "nsize child \<le> bsize bs"
    using coalesce_size[of x rest xy child] prems inner by simp
  moreover have "bsize (cm_set xy child todo) \<le> bsize todo + nsize child"
    by (rule bsize_cm_set)
  ultimately show ?case by simp
qed

definition node_optimize :: "'v node \<Rightarrow> 'v node" where
  "node_optimize n = Node (optimize_loop [] (branches n)) (vals n)"

section \<open>The tree\<close>

record 'v tree =
  root :: "'v node"
  optimized :: bool

type_synonym 'v pair = "sequence \<times> 'v"

text \<open>
  A method that throws has still changed what it changed before: the outcome of a call is
  the error thrown, if any, together with the tree as the call leaves it.
\<close>

type_synonym 'v outcome = "error option \<times> 'v tree"

text \<open>\<^verbatim>\<open>_addSequence\<close>: the expansion runs (and may throw) before the loop over the
  offsets \<open>i = 0, \<dots>, length expanded - 1\<close>.\<close>

definition addSequence_inner :: "'v pair \<Rightarrow> 'v tree \<Rightarrow> 'v outcome" where
  "addSequence_inner pair t =
     (case expandSequence (fst pair) of
        Inl e \<Rightarrow> (Some e, t)
      | Inr expanded \<Rightarrow>
          (None,
           t\<lparr>root := fold (\<lambda>i. node_addSequence (drop i expanded) (snd pair) i)
                         [0..<length expanded] (root t)\<rparr>))"

definition addSequence :: "'v pair \<Rightarrow> 'v tree \<Rightarrow> 'v outcome" where
  "addSequence pair t =
     (if optimized t then (Some NoLongerAcceptingSequences, t) else addSequence_inner pair t)"

fun addSequences_loop :: "'v pair list \<Rightarrow> 'v tree \<Rightarrow> 'v outcome" where
  "addSequences_loop [] t = (None, t)"
| "addSequences_loop (pair # pairs) t =
     (case addSequence_inner pair t of
        (Some e, t') \<Rightarrow> (Some e, t')
      | (None, t') \<Rightarrow> addSequences_loop pairs t')"

definition addSequences :: "'v pair list \<Rightarrow> 'v tree \<Rightarrow> 'v outcome" where
  "addSequences pairs t =
     (if optimized t then (Some NoLongerAcceptingSequences, t) else addSequences_loop pairs t)"

definition optimize :: "'v tree \<Rightarrow> 'v outcome" where
  "optimize t =
     (if optimized t then (Some AlreadyOptimized, t)
      else (None, t\<lparr>root := node_optimize (root t), optimized := True\<rparr>))"

text \<open>The constructor: the fields' initial values, then \<^verbatim>\<open>addSequences\<close> when pairs are
  given. A constructor that throws yields no tree.\<close>

definition empty_tree :: "'v tree" where
  "empty_tree = \<lparr>root = Node [] [], optimized = False\<rparr>"

definition new_tree :: "'v pair list option \<Rightarrow> error + 'v tree" where
  "new_tree pairs =
     (case pairs of
        None \<Rightarrow> Inr empty_tree
      | Some ps \<Rightarrow>
          (case addSequences ps empty_tree of
             (Some e, t) \<Rightarrow> Inl e
           | (None, t) \<Rightarrow> Inr t))"

definition has :: "'v tree \<Rightarrow> string \<Rightarrow> bool" where
  "has t query = node_has (root t) query"

definition search :: "'v tree \<Rightarrow> string \<Rightarrow> 'v list" where
  "search t query = node_search (root t) query"

section \<open>Notions used to state the properties\<close>

text \<open>A pattern is anchored when every match it reports starts at the left edge of the
  text it was run on, so that the matched text is a prefix of that text.\<close>

definition anchored :: "regexp \<Rightarrow> bool" where
  "anchored re = (\<forall>q m. exec re q = Some m \<longrightarrow> prefix m q)"

text \<open>
  What \<^verbatim>\<open>_search\<close> offers to its accumulator, in the order of the traversal: every
  pair of value and cost stored at a child whose edge exhausted the query. The accumulator
  is the fold of \<^const>\<open>offer\<close> over this list (lemma \<open>search_loop_offers\<close>).
\<close>

fun offers :: "'v branches \<Rightarrow> string \<Rightarrow> ('v \<times> nat) list" where
  "offers [] query = []"
| "offers ((token, Node bs vs) # others) query =
     (case consume token query of
        None \<Rightarrow> offers others query
      | Some nextQuery \<Rightarrow>
          offers bs nextQuery @ (if nextQuery = [] then vs else []) @ offers others query)"

text \<open>The least cost a list of offers holds for a value; \<open>\<infinity>\<close> when it holds none.\<close>

fun best :: "('v \<times> nat) list \<Rightarrow> 'v \<Rightarrow> enat" where
  "best [] k = \<infinity>"
| "best ((k', c) # os) k = (if k' = k then min (enat c) (best os k) else best os k)"

text \<open>The elements of a list in the order of their first occurrence.\<close>

fun distinct_first :: "'a list \<Rightarrow> 'a list" where
  "distinct_first [] = []"
| "distinct_first (x # xs) = x # removeAll x (distinct_first xs)"

text \<open>The cost a map records for a value, \<open>\<infinity>\<close> standing for no record
  (\<^verbatim>\<open>get(k) ?? Infinity\<close>).\<close>

definition lk :: "('v \<times> nat) list \<Rightarrow> 'v \<Rightarrow> enat" where
  "lk ret k = (case map_of ret k of None \<Rightarrow> \<infinity> | Some c \<Rightarrow> enat c)"

text \<open>The minimum cost offered for a value over all consumptions of the query.\<close>

definition best_offer :: "'v node \<Rightarrow> string \<Rightarrow> 'v \<Rightarrow> enat" where
  "best_offer n query v = best (offers (branches n) query) v"


text \<open>
  Nodes are named by the canonical keys on the way to them: \<open>walk\<close> follows a list of
  keys from a node, and \<open>cost_at\<close> is the cost recorded for a value at the node a path
  leads to, \<open>\<infinity>\<close> when the path leads nowhere or the node has no record of the value.
\<close>

fun cm_get :: "string \<Rightarrow> 'v branches \<Rightarrow> 'v node option" where
  "cm_get k [] = None"
| "cm_get k ((t, b) # bs) = (if key_of t = k then Some b else cm_get k bs)"

fun walk :: "string list \<Rightarrow> 'v node \<Rightarrow> 'v node option" where
  "walk [] n = Some n"
| "walk (k # ks) n = (case cm_get k (branches n) of None \<Rightarrow> None | Some b \<Rightarrow> walk ks b)"

definition cost_at :: "'v node \<Rightarrow> string list \<Rightarrow> 'v \<Rightarrow> enat" where
  "cost_at n ks v = (case walk ks n of None \<Rightarrow> \<infinity> | Some m \<Rightarrow> lk (vals m) v)"

text \<open>An atomic token: a single character, or a pattern whose source starts with
  \<open>^\<close>.\<close>

fun atomic :: "token \<Rightarrow> bool" where
  "atomic (Str s) = (length s = 1)"
| "atomic (Rx re) = prefix ''^'' (source re)"


text \<open>What a list of edges offers for a value on a query: the least cost among the
  offers of the traversal.\<close>

definition den :: "'v branches \<Rightarrow> string \<Rightarrow> 'v \<Rightarrow> enat" where
  "den bs query v = best (offers bs query) v"

text \<open>
  The shape \<^verbatim>\<open>optimize\<close> relies on when it re-keys an edge. Within one node the keys are
  distinct, every literal label is non-empty, and no other key begins with the first
  character of a literal label: then the concatenation of a literal label with anything is
  the key of no other edge of the node. \<open>well_keyed\<close> asks this of every node below a
  list of edges.
\<close>

definition edges_ok :: "'v branches \<Rightarrow> bool" where
  "edges_ok bs \<longleftrightarrow>
     distinct (map (key_of \<circ> fst) bs) \<and>
     (\<forall>s. Str s \<in> fst ` set bs \<longrightarrow>
        s \<noteq> [] \<and> (\<forall>k \<in> key_of ` fst ` set bs. k \<noteq> s \<longrightarrow> \<not> prefix [hd s] k))"

fun well_keyed :: "'v branches \<Rightarrow> bool" where
  "well_keyed [] = True"
| "well_keyed ((t, Node bs vs) # others) = (edges_ok bs \<and> well_keyed bs \<and> well_keyed others)"

text \<open>
  The shape of what insertion builds: every edge is labelled by an atomic token, and the
  keys of a node are distinct.
\<close>

fun built :: "'v branches \<Rightarrow> bool" where
  "built [] = True"
| "built ((t, Node bs vs) # others) =
     (atomic t \<and> key_of t \<notin> key_of ` fst ` set others \<and> built bs \<and> built others)"

text \<open>
  A node has a caret clash when it has both a pattern edge and a literal edge whose label
  begins with \<open>^\<close>, the character every accepted pattern source begins with. A tree is
  caret free when no node has one.
\<close>

fun caret_literal :: "token \<Rightarrow> bool" where
  "caret_literal (Str s) = prefix ''^'' s"
| "caret_literal (Rx re) = False"

fun is_pattern :: "token \<Rightarrow> bool" where
  "is_pattern (Str s) = False"
| "is_pattern (Rx re) = True"

definition caret_clash :: "'v branches \<Rightarrow> bool" where
  "caret_clash bs = (list_ex (\<lambda>e. caret_literal (fst e)) bs \<and> list_ex (\<lambda>e. is_pattern (fst e)) bs)"

fun caret_free_branches :: "'v branches \<Rightarrow> bool" where
  "caret_free_branches [] = True"
| "caret_free_branches ((t, Node bs vs) # others) =
     (\<not> caret_clash bs \<and> caret_free_branches bs \<and> caret_free_branches others)"

definition caret_free :: "'v node \<Rightarrow> bool" where
  "caret_free n = (\<not> caret_clash (branches n) \<and> caret_free_branches (branches n))"


subsection \<open>Example inputs\<close>

text \<open>\<^verbatim>\<open>/^e+/\<close>, \<^verbatim>\<open>/^a/\<close> and the unanchored \<^verbatim>\<open>/e+/\<close>, each with the matcher of
  the host language written out.\<close>

definition rx_e_plus :: regexp where
  "rx_e_plus =
     RegExp ''^e+''
       (\<lambda>q. case takeWhile (\<lambda>c. c = CHR ''e'') q of [] \<Rightarrow> None | c # cs \<Rightarrow> Some (c # cs))"

definition rx_a :: regexp where
  "rx_a = RegExp ''^a'' (\<lambda>q. if prefix ''a'' q then Some ''a'' else None)"

definition rx_unanchored :: regexp where
  "rx_unanchored =
     RegExp ''e+''
       (\<lambda>q. case takeWhile (\<lambda>c. c = CHR ''e'') (dropWhile (\<lambda>c. c \<noteq> CHR ''e'') q) of
               [] \<Rightarrow> None | c # cs \<Rightarrow> Some (c # cs))"

text \<open>The pairs of the test \<^verbatim>\<open>overlap.spec.ts\<close>.\<close>

definition overlap_pairs :: "string pair list" where
  "overlap_pairs = [([Str ''ab''], ''ab''), ([Str ''abc''], ''abc'')]"

text \<open>Two pairs on which the probe \<^verbatim>\<open>has\<close> and \<^verbatim>\<open>search\<close> disagree.\<close>

definition first_match_pairs :: "string pair list" where
  "first_match_pairs = [([Rx rx_a, Str ''x''], ''v1''), ([Str ''ab''], ''v2'')]"


text \<open>Two values of equal cost on the query \<open>"a"\<close>: the tree built from the pairs, and
  the same tree after \<^verbatim>\<open>optimize\<close>.\<close>

definition order_pairs :: "string pair list" where
  "order_pairs = [([Str ''abc''], ''v1''), ([Str ''ad''], ''v2'')]"

definition order_tree :: "string tree" where
  "order_tree =
     \<lparr>root = Node
        [(Str ''a'', Node [(Str ''b'', Node [(Str ''c'', Node [] [(''v1'', 0)])] []),
                           (Str ''d'', Node [] [(''v2'', 0)])] []),
         (Str ''b'', Node [(Str ''c'', Node [] [(''v1'', 1)])] []),
         (Str ''c'', Node [] [(''v1'', 2)]),
         (Str ''d'', Node [] [(''v2'', 1)])] [],
      optimized = False\<rparr>"

definition order_tree_optimized :: "string tree" where
  "order_tree_optimized =
     \<lparr>root = Node
        [(Str ''a'', Node [(Str ''d'', Node [] [(''v2'', 0)]),
                           (Str ''bc'', Node [] [(''v1'', 0)])] []),
         (Str ''c'', Node [] [(''v1'', 2)]),
         (Str ''d'', Node [] [(''v2'', 1)]),
         (Str ''bc'', Node [] [(''v1'', 1)])] [],
      optimized = True\<rparr>"

text \<open>A literal \<open>"^a"\<close> beside the pattern \<^verbatim>\<open>/^a/\<close>.\<close>

definition clash_pairs :: "string pair list" where
  "clash_pairs = [([Rx rx_a], ''v1''), ([Str ''^a''], ''v2'')]"



section \<open>Tokenization\<close>

lemma anchored_rx_e_plus: "anchored rx_e_plus"
proof -
  have "prefix (takeWhile P q) q" for P and q :: string
    by (metis prefixI takeWhile_dropWhile_id)
  then show ?thesis
    unfolding anchored_def rx_e_plus_def
    by (auto split: list.splits) metis
qed

lemma expandSequence_unanchored:
  "Rx re \<in> set sequence \<Longrightarrow> \<not> prefix ''^'' (source re) \<Longrightarrow>
   expandSequence sequence = Inl RegexMustStartWithCaret"
proof (induction sequence)
  case Nil
  then show ?case by simp
next
  case (Cons t ts)
  show ?case
  proof (cases "expandToken t")
    case (Inl e)
    then have "e = RegexMustStartWithCaret" by (cases t) (auto split: if_splits)
    with Inl show ?thesis by simp
  next
    case (Inr xs)
    then have "t \<noteq> Rx re" using Cons.prems(2) by auto
    then have "expandSequence ts = Inl RegexMustStartWithCaret"
      using Cons by auto
    with Inr show ?thesis by simp
  qed
qed

lemma expandSequence_error: "expandSequence sequence = Inl e \<Longrightarrow> e = RegexMustStartWithCaret"
proof (induction sequence)
  case Nil
  then show ?case by simp
next
  case (Cons t ts)
  then show ?case
    by (cases t) (auto split: sum.splits if_splits)
qed

lemma addSequences_loop_error:
  "fst (addSequences_loop pairs t) = Some e \<Longrightarrow> e = RegexMustStartWithCaret"
proof (induction pairs arbitrary: t)
  case Nil
  then show ?case by simp
next
  case (Cons p ps)
  then show ?case
    by (auto simp: addSequence_inner_def split: sum.splits dest: expandSequence_error)
qed

lemma addSequences_loop_unanchored:
  "(sequence, v) \<in> set pairs \<Longrightarrow> expandSequence sequence = Inl e \<Longrightarrow>
   fst (addSequences_loop pairs t) = Some RegexMustStartWithCaret"
proof (induction pairs arbitrary: t)
  case Nil
  then show ?case by simp
next
  case (Cons p ps)
  then show ?case
    by (auto simp: addSequence_inner_def split: sum.splits dest: expandSequence_error)
qed

lemma overlap_built:
  "new_tree (Some overlap_pairs) = Inr
     \<lparr>root = Node
        [(Str ''a'', Node [(Str ''b'', Node [(Str ''c'', Node [] [(''abc'', 0)])] [(''ab'', 0)])] []),
         (Str ''b'', Node [(Str ''c'', Node [] [(''abc'', 1)])] [(''ab'', 1)]),
         (Str ''c'', Node [] [(''abc'', 2)])] [],
      optimized = False\<rparr>"
  by (simp add: new_tree_def addSequences_def empty_tree_def addSequence_inner_def
        overlap_pairs_def)

section \<open>The probe\<close>

lemma first_match_built:
  "new_tree (Some first_match_pairs) = Inr
     \<lparr>root = Node
        [(Rx rx_a, Node [(Str ''x'', Node [] [(''v1'', 0)])] []),
         (Str ''x'', Node [] [(''v1'', 1)]),
         (Str ''a'', Node [(Str ''b'', Node [] [(''v2'', 0)])] []),
         (Str ''b'', Node [] [(''v2'', 1)])] [],
      optimized = False\<rparr>"
  by (simp add: new_tree_def addSequences_def empty_tree_def addSequence_inner_def
        first_match_pairs_def rx_a_def)

lemma has_loop_find:
  "has_loop bs query =
     (case find (\<lambda>(tok, b). consume tok query \<noteq> None) bs of
        None \<Rightarrow> False
      | Some (tok, b) \<Rightarrow>
          (case consume tok query of
             None \<Rightarrow> False
           | Some nextQuery \<Rightarrow> nextQuery = [] \<or> has_loop (branches b) nextQuery))"
proof (induction bs query rule: has_loop.induct)
  case (1 query)
  show ?case by simp
next
  case (2 token bs vs more query)
  show ?case
  proof (cases "consume token query")
    case None
    then show ?thesis using 2(1) by simp
  next
    case (Some nextQuery)
    then show ?thesis by simp
  qed
qed


section \<open>The accumulator of the search\<close>

lemma search_loop_offers: "search_loop bs query ret = fold offer (offers bs query) ret"
  by (induction bs query ret rule: search_loop.induct) (auto split: option.splits)

lemma keys_offer:
  "map fst (offer kc ret) = (if fst kc \<in> set (map fst ret) then map fst ret else map fst ret @ [fst kc])"
proof (cases kc)
  case (Pair k c)
  show ?thesis
  proof (cases "map_of ret k")
    case None
    then have "k \<notin> fst ` set ret" by (simp add: map_of_eq_None_iff)
    then show ?thesis using None Pair by (simp add: update_keys)
  next
    case (Some c')
    then have "(k, c') \<in> set ret" by (rule map_of_SomeD)
    then have "k \<in> fst ` set ret" by force
    then show ?thesis using Some Pair by (simp add: update_keys)
  qed
qed

lemma distinct_offer: "distinct (map fst ret) \<Longrightarrow> distinct (map fst (offer kc ret))"
  by (simp add: keys_offer)

lemma distinct_fold_offer: "distinct (map fst ret) \<Longrightarrow> distinct (map fst (fold offer os ret))"
  by (induction os arbitrary: ret) (simp_all add: distinct_offer del: offer.simps)

lemma lk_offer: "lk (offer (k', c) ret) k = (if k = k' then min (lk ret k) (enat c) else lk ret k)"
  by (auto simp: lk_def update_conv' min_def split: option.splits)

lemma lk_fold_offer: "lk (fold offer os ret) k = min (lk ret k) (best os k)"
proof (induction os arbitrary: ret)
  case Nil
  show ?case by simp
next
  case (Cons o' os)
  obtain k' c where o': "o' = (k', c)" by (cases o')
  show ?case
    using Cons[of "offer (k', c) ret"] 
    by (simp add: o' lk_offer min.assoc del: offer.simps)
qed

lemma best_append: "best (xs @ ys) k = min (best xs k) (best ys k)"
  by (induction xs) (auto simp: min.assoc)

lemma best_infinity_iff: "best os k = \<infinity> \<longleftrightarrow> k \<notin> fst ` set os"
  by (induction os) (auto simp: min_def split: if_splits)

lemma keys_fold_offer:
  "map fst (fold offer os ret) =
     map fst ret @ filter (\<lambda>k. k \<notin> set (map fst ret)) (distinct_first (map fst os))"
proof (induction os arbitrary: ret)
  case Nil
  show ?case by simp
next
  case (Cons o' os)
  have rm: "filter P (removeAll x xs) = filter (\<lambda>y. y \<noteq> x \<and> P y) xs" for P and x :: 'a and xs
    by (induction xs) auto
  show ?case
  proof (cases "fst o' \<in> set (map fst ret)")
    case True
    have "filter (\<lambda>k. k \<notin> set (map fst ret)) (removeAll (fst o') (distinct_first (map fst os)))
            = filter (\<lambda>k. k \<notin> set (map fst ret)) (distinct_first (map fst os))"
      unfolding rm using True by (intro filter_cong) auto
    then show ?thesis using True Cons[of "offer o' ret"]
      by (simp add: keys_offer del: offer.simps)
  next
    case False
    have "filter (\<lambda>k. k \<notin> set (map fst ret @ [fst o'])) (distinct_first (map fst os))
            = filter (\<lambda>k. k \<notin> set (map fst ret)) (removeAll (fst o') (distinct_first (map fst os)))"
      unfolding rm by (intro filter_cong) auto
    then show ?thesis using False Cons[of "offer o' ret"]
      by (simp add: keys_offer del: offer.simps)
  qed
qed

lemma search_inner_fold: "search_inner n query = fold offer (offers (branches n) query) []"
  by (simp add: search_inner_def search_loop_offers)

lemma search_inner_distinct: "distinct (map fst (search_inner n query))"
  by (simp add: search_inner_fold distinct_fold_offer)

lemma lk_Nil: "lk [] k = \<infinity>"
  by (simp add: lk_def)

lemma search_inner_lk: "lk (search_inner n query) v = best_offer n query v"
  by (simp add: search_inner_fold lk_fold_offer best_offer_def lk_Nil)

lemma search_inner_cost:
  assumes "(v, c) \<in> set (search_inner n query)"
  shows "best_offer n query v = enat c"
proof -
  have "map_of (search_inner n query) v = Some c"
    by (rule map_of_is_SomeI[OF search_inner_distinct assms])
  then show ?thesis using search_inner_lk[of n query v] by (simp add: lk_def)
qed

lemma search_inner_keys:
  "map fst (search_inner n query) = distinct_first (map fst (offers (branches n) query))"
  by (simp add: search_inner_fold keys_fold_offer)


section \<open>Insertion\<close>

lemma expandSequence_atomic: "expandSequence sequence = Inr ex \<Longrightarrow> list_all atomic ex"
proof (induction sequence arbitrary: ex)
  case Nil
  then show ?case by simp
next
  case (Cons t ts)
  then show ?case
    by (cases t) (auto split: sum.splits if_splits simp: list_all_iff)
qed

lemma cm_get_cm_get_update:
  "cm_get k' (cm_get_update k f bs) =
     (if k' = key_of k
      then Some (f (case cm_get k' bs of None \<Rightarrow> Node [] [] | Some b \<Rightarrow> b))
      else cm_get k' bs)"
  by (induction bs) auto

lemma cost_at_Nil: "cost_at n [] v = lk (vals n) v"
  by (simp add: cost_at_def)

lemma cost_at_Cons:
  "cost_at n (k # ks) v = (case cm_get k (branches n) of None \<Rightarrow> \<infinity> | Some b \<Rightarrow> cost_at b ks v)"
  by (simp add: cost_at_def split: option.splits)

lemma cost_at_empty: "cost_at (Node [] []) ks v = \<infinity>"
  by (cases ks) (simp_all add: cost_at_Nil cost_at_Cons lk_Nil)

lemma lk_update:
  "lk (AList.update k c al) k' = (if k' = k then enat c else lk al k')"
  by (simp add: lk_def update_conv')

lemma cost_at_node_addSequence:
  "cost_at (node_addSequence toks v i n) ks v' =
     (if ks = map key_of toks \<and> v' = v then min (cost_at n ks v') (enat i) else cost_at n ks v')"
proof (induction toks arbitrary: n ks)
  case Nil
  show ?case
  proof (cases ks)
    case Nil
    show ?thesis
      by (auto simp: Nil cost_at_Nil lk_update) (auto simp: lk_def split: option.splits)
  next
    case (Cons k ks')
    then show ?thesis by (simp add: cost_at_Cons)
  qed
next
  case (Cons t ts)
  show ?case
  proof (cases ks)
    case Nil
    then show ?thesis by (simp add: cost_at_Nil)
  next
    case ks: (Cons k ks')
    show ?thesis
    proof (cases "k = key_of t")
      case False
      then show ?thesis by (simp add: ks cost_at_Cons cm_get_cm_get_update)
    next
      case True
      show ?thesis
      proof (cases "cm_get k (branches n)")
        case None
        then show ?thesis using True
          by (simp add: ks cost_at_Cons cm_get_cm_get_update Cons.IH cost_at_empty)
      next
        case (Some b)
        then show ?thesis using True
          by (simp add: ks cost_at_Cons cm_get_cm_get_update Cons.IH)
      qed
    qed
  qed
qed

lemma cost_at_fold:
  "cost_at (fold (\<lambda>i. node_addSequence (drop i ex) v i) offs n) ks v' =
     (if v' = v
      then fold (\<lambda>i e. if ks = map key_of (drop i ex) then min e (enat i) else e) offs (cost_at n ks v')
      else cost_at n ks v')"
  by (induction offs arbitrary: n) (simp_all add: cost_at_node_addSequence)

lemma fold_min_le:
  "fold (\<lambda>i e. if g i then min e (enat i) else e) offs (e0 :: enat) \<le> e0"
proof (induction offs arbitrary: e0)
  case Nil
  show ?case by simp
next
  case (Cons i offs)
  show ?case using Cons[of "if g i then min e0 (enat i) else e0"]
    by (auto intro: order_trans min.cobounded1)
qed

lemma fold_min_unique:
  assumes "\<And>i. i \<in> set offs \<Longrightarrow> g i \<Longrightarrow> i = j"
  shows "fold (\<lambda>i e. if g i then min e (enat i) else e) offs (e0 :: enat) =
           (if \<exists>i\<in>set offs. g i then min e0 (enat j) else e0)"
  using assms
proof (induction offs arbitrary: e0)
  case Nil
  show ?case by simp
next
  case (Cons i offs)
  have IH: "fold (\<lambda>i e. if g i then min e (enat i) else e) offs e1 =
           (if \<exists>i\<in>set offs. g i then min e1 (enat j) else e1)" for e1
    using Cons by simp
  show ?case
  proof (cases "g i")
    case True
    then have "i = j" using Cons.prems by simp
    then show ?thesis using True by (simp add: IH min.assoc)
  next
    case False
    then show ?thesis by (simp add: IH)
  qed
qed

lemma suffix_path_unique:
  assumes "i < length ex" and "j < length ex"
    and "map key_of (drop j ex) = map key_of (drop i (ex :: token list))"
  shows "i = j"
proof -
  have "length (map key_of (drop j ex)) = length (map key_of (drop i ex))"
    using assms(3) by simp
  then show ?thesis using assms(1,2) by simp
qed

lemma cost_at_addSequence_inner:
  assumes "expandSequence sequence = Inr ex"
  shows "cost_at (root (snd (addSequence_inner (sequence, v) t))) ks v' =
     (if v' = v \<and> (\<exists>i<length ex. ks = map key_of (drop i ex))
      then min (cost_at (root t) ks v') (enat (length ex - length ks))
      else cost_at (root t) ks v')"
proof -
  let ?g = "\<lambda>i. ks = map key_of (drop i ex)"
  have uniq: "i = length ex - length ks" if "i \<in> set [0..<length ex]" "?g i" for i
  proof -
    have "length ks = length ex - i" using that(2) by simp
    then show ?thesis using that(1) by simp
  qed
  have fold_eq: "fold (\<lambda>i e. if ?g i then min e (enat i) else e) [0..<length ex] e0 =
          (if \<exists>i\<in>set [0..<length ex]. ?g i then min e0 (enat (length ex - length ks)) else e0)"
    for e0 :: enat
    using uniq by (rule fold_min_unique)
  have ex_eq: "(\<exists>i\<in>set [0..<length ex]. ?g i) = (\<exists>i<length ex. ?g i)"
    by auto
  have rt: "root (snd (addSequence_inner (sequence, v) t)) =
      fold (\<lambda>i. node_addSequence (drop i ex) v i) [0..<length ex] (root t)"
    using assms by (simp add: addSequence_inner_def)
  show ?thesis
  proof (cases "v' = v \<and> (\<exists>i<length ex. ks = map key_of (drop i ex))")
    case True
    then show ?thesis unfolding rt cost_at_fold fold_eq ex_eq by simp
  next
    case False
    then show ?thesis unfolding rt cost_at_fold fold_eq ex_eq by auto
  qed
qed

lemma cost_at_addSequence_inner_le:
  "cost_at (root (snd (addSequence_inner pair t))) ks v' \<le> cost_at (root t) ks v'"
  by (cases "expandSequence (fst pair)")
     (auto simp: addSequence_inner_def cost_at_fold fold_min_le)

lemma cost_at_addSequences_loop_le:
  "cost_at (root (snd (addSequences_loop pairs t))) ks v' \<le> cost_at (root t) ks v'"
proof (induction pairs arbitrary: t)
  case Nil
  show ?case by simp
next
  case (Cons p ps)
  obtain r t1 where p1: "addSequence_inner p t = (r, t1)" by (cases "addSequence_inner p t")
  have step: "cost_at (root t1) ks v' \<le> cost_at (root t) ks v'"
    using cost_at_addSequence_inner_le[of p t ks v'] p1 by simp
  show ?case
  proof (cases r)
    case None
    then show ?thesis using Cons[of t1] step p1 by (auto intro: order_trans)
  next
    case (Some e)
    then show ?thesis using step p1 by simp
  qed
qed


section \<open>Coalescing keeps what a search is offered\<close>

lemma consume_Nil: "consume tok [] = Some []"
  by (simp add: consume_def)

lemma consume_Str:
  "q \<noteq> [] \<Longrightarrow> consume (Str s) q = (if prefix (take (length s) q) s then Some (drop (length s) q) else None)"
  by (simp add: consume_def)

lemma consume_Str_append:
  "consume (Str (xs @ ys)) q =
     (case consume (Str xs) q of None \<Rightarrow> None | Some q1 \<Rightarrow> consume (Str ys) q1)"
proof (cases "q = []")
  case True
  then show ?thesis by (simp add: consume_Nil)
next
  case q: False
  show ?thesis
  proof (cases "prefix (take (length xs) q) xs")
    case False
    have "\<not> prefix (take (length xs + length ys) q) (xs @ ys)"
    proof
      assume a: "prefix (take (length xs + length ys) q) (xs @ ys)"
      have "take (length xs) q = take (length xs) (take (length xs + length ys) q)"
        by (simp add: min_def)
      then have "prefix (take (length xs) q) (take (length xs + length ys) q)"
        using take_is_prefix[of "length xs" "take (length xs + length ys) q"] by simp
      then have "prefix (take (length xs) q) (xs @ ys)"
        using a by (rule prefix_order.trans)
      moreover have "prefix xs (xs @ ys)" by simp
      moreover have "length (take (length xs) q) \<le> length xs" by simp
      ultimately have "prefix (take (length xs) q) xs" by (rule prefix_length_prefix)
      then show False using False by simp
    qed
    then show ?thesis using False q by (simp add: consume_Str)
  next
    case True
    show ?thesis
    proof (cases "length q \<le> length xs")
      case short: True
      then have "prefix q xs" using True by simp
      then have "prefix q (xs @ ys)" by (simp add: prefix_prefix)
      then show ?thesis using True short q by (simp add: consume_Str consume_Nil)
    next
      case long: False
      then have len: "length (take (length xs) q) = length xs" by simp
      from True obtain zs where zs: "xs = take (length xs) q @ zs"
        by (auto simp: prefix_def)
      have "length xs = length (take (length xs) q @ zs)"
        using arg_cong[OF zs, of length] .
      then have "zs = []" using len by simp
      then have tk: "take (length xs) q = xs" using zs by simp
      define q1 where "q1 = drop (length xs) q"
      have qq: "q = xs @ q1" unfolding q1_def using tk by (metis append_take_drop_id)
      have q1: "q1 \<noteq> []" using long qq by auto
      have "consume (Str (xs @ ys)) q = consume (Str ys) q1"
        using q q1 by (simp add: consume_Str qq)
      moreover have "consume (Str xs) q = Some q1"
        using q by (simp add: consume_Str qq)
      ultimately show ?thesis by simp
    qed
  qed
qed

lemma offers_append: "offers (xs @ ys) q = offers xs q @ offers ys q"
  by (induction xs q rule: offers.induct) (auto split: option.splits)

lemma den_Nil: "den [] q v = \<infinity>"
  by (simp add: den_def)

lemma den_append: "den (xs @ ys) q v = min (den xs q v) (den ys q v)"
  by (simp add: den_def offers_append best_append)

lemma den_Cons:
  "den ((x, n) # others) q v =
     min (case consume x q of
            None \<Rightarrow> \<infinity>
          | Some q' \<Rightarrow> min (den (branches n) q' v) (if q' = [] then best (vals n) v else \<infinity>))
         (den others q v)"
  by (cases n) (auto simp: den_def best_append min.assoc split: option.splits)

lemma den_coalesce:
  assumes "coalesce x rest = Some (xy, child)"
  shows "den [(xy, child)] q v = den [(x, rest)] q v"
proof -
  from assms obtain xs ys where
    x: "x = Str xs" and xy: "xy = Str (xs @ ys)" and
    b: "branches rest = [(Str ys, child)]" and vs: "vals rest = []"
    by (cases "branches rest")
       (auto simp: coalesce_def split: token.splits if_splits prod.splits)
  show ?thesis
    by (cases "consume (Str xs) q")
       (auto simp: den_Cons den_Nil x xy b vs consume_Str_append consume_Nil split: option.splits)
qed


lemma well_keyed_Cons:
  "well_keyed ((t, n) # others) = (edges_ok (branches n) \<and> well_keyed (branches n) \<and> well_keyed others)"
  by (cases n) simp

lemma well_keyed_append: "well_keyed (xs @ ys) = (well_keyed xs \<and> well_keyed ys)"
  by (induction xs rule: well_keyed.induct) auto

lemma cm_has_iff: "cm_has k bs \<longleftrightarrow> key_of k \<in> key_of ` fst ` set bs"
  by (induction bs) (auto simp: image_iff)

lemma cm_set_absent: "\<not> cm_has k bs \<Longrightarrow> cm_set k v bs = bs @ [(k, v)]"
  by (induction bs) auto

lemma coalesce_SomeD:
  assumes "coalesce x rest = Some (xy, child)"
  obtains xs ys where "x = Str xs" "xy = Str (xs @ ys)"
    "branches rest = [(Str ys, child)]" "vals rest = []"
  using assms
  by (cases "branches rest")
     (auto simp: coalesce_def split: token.splits if_splits prod.splits)

text \<open>The key of a spliced edge is new.\<close>

lemma edges_ok_fresh:
  assumes ok: "edges_ok (seen @ (Str xs, n) # todo)"
  shows "xs @ ys \<notin> key_of ` fst ` set (seen @ todo)"
proof
  assume "xs @ ys \<in> key_of ` fst ` set (seen @ todo)"
  then obtain k where k: "k \<in> key_of ` fst ` set (seen @ todo)" "k = xs @ ys" by blast
  have d: "distinct (map (key_of \<circ> fst) (seen @ (Str xs, n) # todo))"
    using ok by (simp add: edges_ok_def)
  then have "xs \<notin> key_of ` fst ` set (seen @ todo)"
    by (auto simp: image_iff)
  then have ne: "k \<noteq> xs" using k(1) by auto
  have "Str xs \<in> fst ` set (seen @ (Str xs, n) # todo)" by (simp add: image_iff)
  moreover have "k \<in> key_of ` fst ` set (seen @ (Str xs, n) # todo)" using k(1) by auto
  ultimately have "xs \<noteq> []" "\<not> prefix [hd xs] k"
    using ok ne unfolding edges_ok_def by blast+
  then show False using k(2) by (cases xs) auto
qed

lemma edges_ok_replace:
  assumes ok: "edges_ok (seen @ (Str xs, n) # todo)"
  shows "edges_ok (seen @ todo @ [(Str (xs @ ys), child)])"
proof -
  let ?A = "seen @ (Str xs, n) # todo" and ?B = "seen @ todo @ [(Str (xs @ ys), child)]"
  let ?K = "key_of ` fst ` set (seen @ todo)"
  let ?F = "fst ` set (seen @ todo)"
  have KA: "key_of ` insert (Str xs) ?F = insert xs ?K" by simp
  have KB: "key_of ` insert (Str (xs @ ys)) ?F = insert (xs @ ys) ?K" by simp
  have FA: "fst ` set ?A = insert (Str xs) ?F"
    by (simp add: image_Un Un_commute insert_commute)
  have FB: "fst ` set ?B = insert (Str (xs @ ys)) ?F"
    by (simp add: image_Un Un_commute insert_commute Un_assoc)
  have fresh: "xs @ ys \<notin> ?K"
    using ok by (rule edges_ok_fresh)
  have dA: "distinct (map (key_of \<circ> fst) ?A)" using ok by (simp add: edges_ok_def)
  have xs_new: "xs \<notin> ?K"
    using dA by (auto simp: image_iff)
  have allA: "\<forall>s. Str s \<in> insert (Str xs) ?F \<longrightarrow>
      s \<noteq> [] \<and> (\<forall>k \<in> insert xs ?K. k \<noteq> s \<longrightarrow> \<not> prefix [hd s] k)"
    using ok unfolding edges_ok_def FA KA by (rule conjunct2)
  have ne_A: "s \<noteq> []" if "Str s \<in> insert (Str xs) ?F" for s
    using allA[THEN spec, THEN mp, OF that] by (rule conjunct1)
  have pre_A: "\<not> prefix [hd s] k"
    if "Str s \<in> insert (Str xs) ?F" and "k \<in> insert xs ?K" and "k \<noteq> s" for s k
    using allA[THEN spec, THEN mp, OF that(1), THEN conjunct2, THEN bspec, OF that(2),
               THEN mp, OF that(3)] .
  have xs: "xs \<noteq> []" by (rule ne_A) simp
  have dB: "distinct (map (key_of \<circ> fst) ?B)"
    using dA fresh by (auto simp: image_iff)
  have inB: "s \<noteq> [] \<and> (\<forall>k \<in> insert (xs @ ys) ?K. k \<noteq> s \<longrightarrow> \<not> prefix [hd s] k)"
    if s: "Str s \<in> insert (Str (xs @ ys)) ?F" for s
  proof (cases "Str s \<in> ?F")
    case True
    then have sA: "Str s \<in> insert (Str xs) ?F" by (rule insertI2)
    have "key_of (Str s) \<in> ?K" using True by (rule imageI)
    then have s_key: "s \<in> ?K" by simp
    have "xs \<noteq> s" using s_key xs_new by (rule_tac notI) simp
    then have "\<not> prefix [hd s] xs" using pre_A[OF sA insertI1] by simp
    then have new: "\<not> prefix [hd s] (xs @ ys)" using xs by (cases xs) auto
    show ?thesis
    proof (intro conjI ballI impI)
      show "s \<noteq> []" using sA by (rule ne_A)
      fix k assume k: "k \<in> insert (xs @ ys) ?K" and ks: "k \<noteq> s"
      show "\<not> prefix [hd s] k"
      proof (cases "k = xs @ ys")
        case True
        then show ?thesis using new by simp
      next
        case False
        then have "k \<in> ?K" using k by simp
        then have "k \<in> insert xs ?K" by (rule insertI2)
        then show ?thesis using ks by (rule pre_A[OF sA])
      qed
    qed
  next
    case False
    then have "Str s = Str (xs @ ys)" using s by simp
    then have s_eq: "s = xs @ ys" by simp
    have hd: "hd (xs @ ys) = hd xs" using xs by simp
    show ?thesis
      unfolding s_eq hd
    proof (intro conjI ballI impI)
      show "xs @ ys \<noteq> []" using xs by simp
      fix k assume k: "k \<in> insert (xs @ ys) ?K" and ks: "k \<noteq> xs @ ys"
      then have kK: "k \<in> ?K" by simp
      then have "k \<noteq> xs" using xs_new by (rule_tac notI) simp
      moreover have "k \<in> insert xs ?K" using kK by (rule insertI2)
      ultimately show "\<not> prefix [hd xs] k"
        using pre_A[OF insertI1, of k] by simp
    qed
  qed
  show ?thesis
    unfolding edges_ok_def FB KB
  proof (rule conjI)
    show "distinct (map (key_of \<circ> fst) ?B)" by (rule dB)
    show "\<forall>s. Str s \<in> insert (Str (xs @ ys)) ?F \<longrightarrow>
      s \<noteq> [] \<and> (\<forall>k \<in> insert (xs @ ys) ?K. k \<noteq> s \<longrightarrow> \<not> prefix [hd s] k)"
    proof (intro allI impI)
      fix s assume "Str s \<in> insert (Str (xs @ ys)) ?F"
      then show "s \<noteq> [] \<and> (\<forall>k \<in> insert (xs @ ys) ?K. k \<noteq> s \<longrightarrow> \<not> prefix [hd s] k)"
        by (rule inB)
    qed
  qed
qed

lemma edges_ok_same_keys:
  assumes "map fst bs = map fst bs'"
  shows "edges_ok bs = edges_ok bs'"
proof -
  have k: "map (key_of \<circ> fst) bs = map (key_of \<circ> fst) bs'"
    using arg_cong[OF assms, of "map key_of"] by simp
  have f: "fst ` set bs = fst ` set bs'"
    using arg_cong[OF assms, of set] by simp
  show ?thesis unfolding edges_ok_def k f ..
qed

lemma optimize_loop_correct:
  "edges_ok (seen @ todo) \<Longrightarrow> well_keyed (seen @ todo) \<Longrightarrow>
     edges_ok (optimize_loop seen todo) \<and> well_keyed (optimize_loop seen todo) \<and>
     (\<forall>q v. den (optimize_loop seen todo) q v = den (seen @ todo) q v)"
proof (induction seen todo rule: optimize_loop.induct)
  case (1 seen)
  then show ?case by simp
next
  case (2 seen x bs vs todo)
  let ?bs' = "optimize_loop [] bs"
  let ?rest = "Node ?bs' vs"
  let ?A = "seen @ (x, Node bs vs) # todo"
  have okA: "edges_ok ?A" and wkA: "well_keyed ?A" using "2.prems" by simp_all
  have wk_parts: "well_keyed seen" "edges_ok bs" "well_keyed bs" "well_keyed todo"
    using wkA by (simp_all add: well_keyed_append)
  have inner: "edges_ok ?bs'" "well_keyed ?bs'" "\<And>q v. den ?bs' q v = den bs q v"
    using "2.IH"(1) wk_parts by simp_all
  have den_rest: "den [(x, ?rest)] q v = den [(x, Node bs vs)] q v" for q v
    by (simp add: den_Cons inner(3) split: option.splits)
  show ?case
  proof (cases "coalesce x ?rest")
    case None
    let ?B = "seen @ [(x, ?rest)] @ todo"
    have "map fst ?B = map fst ?A" by simp
    then have okB: "edges_ok ?B" using okA edges_ok_same_keys by blast
    have wkB: "well_keyed ?B"
      using wk_parts inner by (simp add: well_keyed_append)
    have denB: "den ?B q v = den ?A q v" for q v
      using den_rest[of q v]
      by (simp add: den_append den_Cons[of x _ todo] den_Cons[of x _ "[]"] den_Nil)
    have "edges_ok (optimize_loop (seen @ [(x, ?rest)]) todo) \<and>
          well_keyed (optimize_loop (seen @ [(x, ?rest)]) todo) \<and>
          (\<forall>q v. den (optimize_loop (seen @ [(x, ?rest)]) todo) q v = den ?B q v)"
      using "2.IH"(2)[OF refl None] okB wkB by simp
    then show ?thesis using None denB by simp
  next
    case (Some p)
    obtain xy child where p: "p = (xy, child)" by (cases p)
    have co: "coalesce x ?rest = Some (xy, child)" using Some p by simp
    from co obtain xs ys where
      x: "x = Str xs" and xy: "xy = Str (xs @ ys)" and
      b: "?bs' = [(Str ys, child)]" and vs: "vs = []"
      by (rule coalesce_SomeD) simp_all
    have okA': "edges_ok (seen @ (Str xs, Node bs vs) # todo)" using okA x by simp
    have fresh: "xs @ ys \<notin> key_of ` fst ` set (seen @ todo)"
      using okA' by (rule edges_ok_fresh)
    have not_seen: "\<not> cm_has xy seen" using fresh by (auto simp: cm_has_iff xy)
    have "\<not> cm_has xy todo" using fresh by (auto simp: cm_has_iff xy)
    then have set_todo: "cm_set xy child todo = todo @ [(xy, child)]" by (rule cm_set_absent)
    let ?B = "seen @ todo @ [(xy, child)]"
    have okB: "edges_ok ?B" unfolding xy using okA' by (rule edges_ok_replace)
    have wk_child: "edges_ok (branches child)" "well_keyed (branches child)"
      using inner(2) unfolding b by (simp_all add: well_keyed_Cons)
    have wkB: "well_keyed ?B"
      using wk_parts wk_child by (simp add: well_keyed_append well_keyed_Cons)
    have denB: "den ?B q v = den ?A q v" for q v
    proof -
      have "den [(xy, child)] q v = den [(x, Node bs vs)] q v"
        using den_coalesce[OF co, of q v] den_rest[of q v] by simp
      then show ?thesis
        by (simp add: den_append den_Cons[of x _ todo] den_Cons[of x _ "[]"] den_Nil
              min.assoc min.left_commute min.commute)
    qed
    have "edges_ok (optimize_loop seen (cm_set xy child todo)) \<and>
          well_keyed (optimize_loop seen (cm_set xy child todo)) \<and>
          (\<forall>q v. den (optimize_loop seen (cm_set xy child todo)) q v = den ?B q v)"
      using "2.IH"(4)[OF refl Some[unfolded p] refl not_seen] okB wkB set_todo by simp
    then show ?thesis using co not_seen denB by simp
  qed
qed


lemma built_Cons:
  "built ((t, n) # others) =
     (atomic t \<and> key_of t \<notin> key_of ` fst ` set others \<and> built (branches n) \<and> built others)"
  by (cases n) simp

lemma built_distinct: "built bs \<Longrightarrow> distinct (map (key_of \<circ> fst) bs)"
  by (induction bs rule: built.induct) (auto simp: image_iff)

lemma built_atomic: "built bs \<Longrightarrow> t \<in> fst ` set bs \<Longrightarrow> atomic t"
  by (induction bs rule: built.induct) auto

lemma built_edges_ok:
  assumes "built bs" and "\<not> caret_clash bs"
  shows "edges_ok bs"
  unfolding edges_ok_def
proof (intro conjI allI impI ballI)
  show "distinct (map (key_of \<circ> fst) bs)" using assms(1) by (rule built_distinct)
next
  fix s assume s: "Str s \<in> fst ` set bs"
  have "atomic (Str s)" using assms(1) s by (rule built_atomic)
  then show "s \<noteq> []" by auto
next
  fix s k assume s: "Str s \<in> fst ` set bs" and k: "k \<in> key_of ` fst ` set bs" and ne: "k \<noteq> s"
  have "atomic (Str s)" using assms(1) s by (rule built_atomic)
  then obtain c where c: "s = [c]" by (cases s) auto
  from k obtain t' where t': "t' \<in> fst ` set bs" and kt: "k = key_of t'" by (rule imageE)
  have at': "atomic t'" using assms(1) t' by (rule built_atomic)
  show "\<not> prefix [hd s] k"
  proof (cases t')
    case (Str s')
    then obtain c' where "s' = [c']" using at' by (cases s') auto
    then show ?thesis using ne kt Str c by simp
  next
    case (Rx re)
    from t' obtain e where e: "e \<in> set bs" "t' = fst e" by (rule imageE)
    have "fst e = Rx re" using e(2) Rx by simp
    then have "is_pattern (fst e)" by simp
    then have pat: "list_ex (\<lambda>e. is_pattern (fst e)) bs"
      unfolding list_ex_iff using e(1) by (rule_tac bexI)
    have src: "prefix ''^'' (source re)" using at' Rx by simp
    show ?thesis
    proof
      assume "prefix [hd s] k"
      then have "prefix [c] (source re)" using c kt Rx by simp
      then have "c = CHR ''^''" using src by (cases "source re") auto
      then have cl: "caret_literal (Str s)" using c by simp
      from s obtain e' where e': "e' \<in> set bs" "Str s = fst e'" by (rule imageE)
      have "caret_literal (fst e')" using cl unfolding e'(2) .
      then have "list_ex (\<lambda>e. caret_literal (fst e)) bs"
        unfolding list_ex_iff using e'(1) by (rule_tac bexI)
      then show False using pat assms(2) by (simp add: caret_clash_def)
    qed
  qed
qed

lemma built_well_keyed: "built bs \<Longrightarrow> caret_free_branches bs \<Longrightarrow> well_keyed bs"
  by (induction bs rule: built.induct) (auto simp: built_edges_ok)

lemma keys_cm_get_update:
  "key_of ` fst ` set (cm_get_update k f bs) = insert (key_of k) (key_of ` fst ` set bs)"
proof (induction bs)
  case Nil
  show ?case by simp
next
  case (Cons e bs)
  obtain t b where e: "e = (t, b)" by (cases e)
  show ?case
  proof (cases "key_of t = key_of k")
    case True
    then show ?thesis by (simp add: e insert_absorb)
  next
    case False
    then show ?thesis using Cons by (simp add: e insert_commute)
  qed
qed

lemma built_cm_get_update:
  assumes "built bs" and "atomic k" and "\<And>b. built (branches b) \<Longrightarrow> built (branches (f b))"
  shows "built (cm_get_update k f bs)"
  using assms(1)
proof (induction bs)
  case Nil
  show ?case using assms(2) assms(3)[of "Node [] []"] by (simp add: built_Cons)
next
  case (Cons e bs)
  obtain t b where e: "e = (t, b)" by (cases e)
  show ?case
  proof (cases "key_of t = key_of k")
    case True
    then show ?thesis using Cons.prems assms(3)[of b] by (simp add: e built_Cons)
  next
    case False
    then show ?thesis using Cons
      by (simp add: e built_Cons keys_cm_get_update)
  qed
qed

lemma built_node_addSequence:
  "list_all atomic toks \<Longrightarrow> built (branches n) \<Longrightarrow>
   built (branches (node_addSequence toks v i n))"
proof (induction toks arbitrary: n)
  case Nil
  then show ?case by simp
next
  case (Cons t ts)
  have "built (cm_get_update t (node_addSequence ts v i) (branches n))"
  proof (rule built_cm_get_update)
    show "built (branches n)" by (rule Cons.prems(2))
    show "atomic t" using Cons.prems(1) by simp
    show "built (branches (node_addSequence ts v i b))" if "built (branches b)" for b
      using Cons.IH[of b] Cons.prems(1) that by simp
  qed
  then show ?case by simp
qed

lemma built_fold_addSequence:
  "list_all atomic ex \<Longrightarrow> built (branches n) \<Longrightarrow>
   built (branches (fold (\<lambda>i. node_addSequence (drop i ex) v i) offs n))"
proof (induction offs arbitrary: n)
  case Nil
  then show ?case by simp
next
  case (Cons i offs)
  have "list_all atomic (drop i ex)"
    using Cons.prems(1) by (auto simp: list_all_iff dest: in_set_dropD)
  then have "built (branches (node_addSequence (drop i ex) v i n))"
    using Cons.prems(2) by (rule built_node_addSequence)
  then show ?case using Cons.IH Cons.prems(1) by simp
qed

lemma built_addSequence_inner:
  assumes "built (branches (root t))"
  shows "built (branches (root (snd (addSequence_inner pair t))))"
proof (cases "expandSequence (fst pair)")
  case (Inl e)
  then show ?thesis using assms by (simp add: addSequence_inner_def)
next
  case (Inr ex)
  then have "list_all atomic ex" by (rule expandSequence_atomic)
  then show ?thesis using Inr assms
    by (simp add: addSequence_inner_def built_fold_addSequence)
qed

lemma optimized_addSequence_inner:
  "optimized (snd (addSequence_inner pair t)) = optimized t"
  by (cases "expandSequence (fst pair)") (simp_all add: addSequence_inner_def)

lemma built_addSequences_loop:
  "built (branches (root t)) \<Longrightarrow> built (branches (root (snd (addSequences_loop pairs t))))"
proof (induction pairs arbitrary: t)
  case Nil
  then show ?case by simp
next
  case (Cons p ps)
  obtain r t1 where p1: "addSequence_inner p t = (r, t1)" by (cases "addSequence_inner p t")
  have b1: "built (branches (root t1))"
    using built_addSequence_inner[OF Cons.prems, of p] p1 by simp
  show ?case
  proof (cases r)
    case None
    then show ?thesis using Cons.IH[OF b1] p1 by simp
  next
    case (Some e)
    then show ?thesis using b1 p1 by simp
  qed
qed

lemma optimized_addSequences_loop:
  "optimized (snd (addSequences_loop pairs t)) = optimized t"
proof (induction pairs arbitrary: t)
  case Nil
  show ?case by simp
next
  case (Cons p ps)
  obtain r t1 where p1: "addSequence_inner p t = (r, t1)" by (cases "addSequence_inner p t")
  have o1: "optimized t1 = optimized t"
    using optimized_addSequence_inner[of p t] p1 by simp
  show ?case
  proof (cases r)
    case None
    then show ?thesis using Cons.IH[of t1] p1 o1 by simp
  next
    case (Some e)
    then show ?thesis using o1 p1 by simp
  qed
qed

lemma new_tree_built:
  assumes "new_tree (Some pairs) = Inr t"
  shows "built (branches (root t))" and "\<not> optimized t"
proof -
  have t: "t = snd (addSequences_loop pairs empty_tree)"
    using assms
    by (cases "addSequences_loop pairs (empty_tree :: 'a tree)")
       (auto simp: new_tree_def addSequences_def empty_tree_def split: option.splits)
  have "built (branches (root (empty_tree :: 'a tree)))" by (simp add: empty_tree_def)
  then show "built (branches (root t))" unfolding t by (rule built_addSequences_loop)
  show "\<not> optimized t" unfolding t by (simp add: optimized_addSequences_loop empty_tree_def)
qed

lemma node_optimize_best_offer:
  assumes "built (branches n)" and "caret_free n"
  shows "best_offer (node_optimize n) q v = best_offer n q v"
proof -
  have "edges_ok ([] @ branches n)" "well_keyed ([] @ branches n)"
    using assms by (simp_all add: caret_free_def built_edges_ok built_well_keyed)
  then have "den (optimize_loop [] (branches n)) q v = den ([] @ branches n) q v"
    using optimize_loop_correct by blast
  then show ?thesis by (simp add: best_offer_def node_optimize_def den_def)
qed


lemma order_tree_built: "new_tree (Some order_pairs) = Inr order_tree"
  by (simp add: new_tree_def addSequences_def empty_tree_def addSequence_inner_def
        order_pairs_def order_tree_def)

lemma order_tree_optimize: "optimize order_tree = (None, order_tree_optimized)"
  by (simp add: optimize_def node_optimize_def coalesce_def order_tree_def
        order_tree_optimized_def)

lemma caret_clash_loses_value:
  "case new_tree (Some clash_pairs) of
     Inl e \<Rightarrow> False
   | Inr t \<Rightarrow> \<not> caret_free (root t)
       \<and> search t ''a'' = [''v1'', ''v2''] \<and> search (snd (optimize t)) ''a'' = [''v2'']"
  by (simp add: new_tree_def addSequences_def empty_tree_def addSequence_inner_def
        clash_pairs_def rx_a_def caret_free_def caret_clash_def
        optimize_def node_optimize_def coalesce_def
        search_def node_search_def search_inner_def consume_def)

lemma search_inner_set:
  "(v, c) \<in> set (search_inner n q) \<longleftrightarrow> best_offer n q v = enat c"
proof
  assume "(v, c) \<in> set (search_inner n q)"
  then show "best_offer n q v = enat c" by (rule search_inner_cost)
next
  assume "best_offer n q v = enat c"
  then have "lk (search_inner n q) v = enat c" by (simp add: search_inner_lk)
  then have "map_of (search_inner n q) v = Some c"
    by (simp add: lk_def split: option.splits)
  then show "(v, c) \<in> set (search_inner n q)" by (rule map_of_SomeD)
qed

lemma search_inner_mset_cong:
  assumes "\<And>v. best_offer n' q v = best_offer n q v"
  shows "mset (search_inner n' q) = mset (search_inner n q)"
proof -
  have "set (search_inner n' q) = set (search_inner n q)"
    using assms by (auto simp: search_inner_set)
  moreover have "distinct (search_inner n' q)" "distinct (search_inner n q)"
    using search_inner_distinct distinct_map by blast+
  ultimately show ?thesis by (simp add: set_eq_iff_mset_eq_distinct)
qed

lemma search_costs:
  "map (best_offer n q) (node_search n q) = map enat (sort (map snd (search_inner n q)))"
proof -
  let ?S = "sort_key snd (search_inner n q)"
  have "map (best_offer n q) (node_search n q) = map (\<lambda>kc. best_offer n q (fst kc)) ?S"
    by (simp add: node_search_def comp_def)
  also have "\<dots> = map (\<lambda>kc. enat (snd kc)) ?S"
    by (rule map_cong) (auto simp: search_inner_set)
  also have "\<dots> = map enat (map snd ?S)" by (simp add: comp_def)
  also have "map snd ?S = sort (map snd (search_inner n q))"
    by (rule properties_for_sort[symmetric]) simp_all
  finally show ?thesis .
qed


section \<open>The claims\<close>

text \<open>
  The claim C1 as the specification words it, that a search returns the same values in the
  same order whether or not \<open>optimize\<close> has run, fails on the tree built from
  \<open>(["abc"], "v1")\<close> and \<open>(["ad"], "v2")\<close> and the query \<open>"a"\<close>: both values have cost
  0, and splicing the edges \<open>b\<close> and \<open>c\<close> below \<open>a\<close> moves the spliced edge behind \<open>d\<close>,
  so the two values are offered, and returned, in the other order.
\<close>

theorem optimize_reorders_ties:
  "new_tree (Some order_pairs) = Inr order_tree
   \<and> optimize order_tree = (None, order_tree_optimized)
   \<and> search order_tree ''a'' = [''v1'', ''v2'']
   \<and> search order_tree_optimized ''a'' = [''v2'', ''v1'']
   \<and> search order_tree_optimized ''a'' \<noteq> search order_tree ''a''"
proof -
  have a: "search order_tree ''a'' = [''v1'', ''v2'']"
    by (simp add: search_def node_search_def search_inner_def consume_def order_tree_def)
  have b: "search order_tree_optimized ''a'' = [''v2'', ''v1'']"
    by (simp add: search_def node_search_def search_inner_def consume_def
          order_tree_optimized_def)
  show ?thesis using order_tree_built order_tree_optimize a b by simp
qed

text \<open>
  C1, amended. For every tree built from sequence/value pairs that is caret free (no node
  has both a pattern edge and a literal edge beginning with \<open>^\<close>; lemma
  \<open>caret_clash_loses_value\<close> shows a tree with such a node on which \<open>optimize\<close> loses a
  value) and every query, \<open>optimize\<close> succeeds and afterwards \<open>search\<close> returns the same
  values, each once and each with the same minimum cost, and the costs along the returned
  list are the same as before: the two lists are permutations of one another that differ at
  most in the order of values of equal cost.
\<close>

theorem optimize_keeps_search_up_to_ties:
  assumes "new_tree (Some pairs) = Inr t" and "caret_free (root t)"
  shows "\<exists>t'. optimize t = (None, t')
          \<and> (\<forall>q v. best_offer (root t') q v = best_offer (root t) q v)
          \<and> (\<forall>q. mset (search t' q) = mset (search t q))
          \<and> (\<forall>q. map (best_offer (root t) q) (search t' q)
                  = map (best_offer (root t) q) (search t q))"
proof -
  let ?t' = "t\<lparr>root := node_optimize (root t), optimized := True\<rparr>"
  have b: "built (branches (root t))" and no: "\<not> optimized t"
    using new_tree_built[OF assms(1)] by simp_all
  have opt: "optimize t = (None, ?t')" using no by (simp add: optimize_def)
  have bo: "best_offer (root ?t') q v = best_offer (root t) q v" for q v
    using node_optimize_best_offer[OF b assms(2)] by simp
  have ms: "mset (search_inner (root ?t') q) = mset (search_inner (root t) q)" for q
    using bo by (rule search_inner_mset_cong)
  have m1: "mset (search ?t' q) = mset (search t q)" for q
  proof -
    have "mset (search u q) = image_mset fst (mset (search_inner (root u) q))" for u :: "'a tree"
      by (simp add: search_def node_search_def)
    then show ?thesis using ms by simp
  qed
  have m2: "map (best_offer (root t) q) (search ?t' q) = map (best_offer (root t) q) (search t q)"
    for q
  proof -
    have "mset (map snd (search_inner (root ?t') q)) = mset (map snd (search_inner (root t) q))"
      using ms[of q] by simp
    then have "sort (map snd (search_inner (root ?t') q)) = sort (map snd (search_inner (root t) q))"
      by (metis properties_for_sort sorted_sort mset_sort)
    then have "map (best_offer (root ?t') q) (node_search (root ?t') q)
             = map (best_offer (root t) q) (node_search (root t) q)"
      by (simp only: search_costs)
    moreover have "best_offer (root ?t') q = best_offer (root t) q"
      using bo by (intro ext)
    ultimately show ?thesis by (simp add: search_def)
  qed
  show ?thesis using opt bo m1 m2 by blast
qed

theorem optimize_keeps_search_up_to_ties_witness:
  "new_tree (Some order_pairs) = Inr order_tree \<and> caret_free (root order_tree)
   \<and> optimize order_tree = (None, order_tree_optimized)
   \<and> mset (search order_tree_optimized ''a'') = mset (search order_tree ''a'')
   \<and> map (best_offer (root order_tree) ''a'') (search order_tree_optimized ''a'')
       = map (best_offer (root order_tree) ''a'') (search order_tree ''a'')"
proof -
  have cf: "caret_free (root order_tree)"
    by (simp add: caret_free_def caret_clash_def order_tree_def)
  from optimize_keeps_search_up_to_ties [OF order_tree_built cf] obtain t' where
    "optimize order_tree = (None, t')"
    "\<forall>q. mset (search t' q) = mset (search order_tree q)"
    "\<forall>q. map (best_offer (root order_tree) q) (search t' q)
           = map (best_offer (root order_tree) q) (search order_tree q)"
    by blast
  then show ?thesis using order_tree_built order_tree_optimize cf by simp
qed

text \<open>
  C2. For the tree built from exactly the two pairs \<open>(["ab"], "ab")\<close> and
  \<open>(["abc"], "abc")\<close>, after \<open>optimize\<close> has been called, \<open>search("ab")\<close> returns a list
  that contains both the value \<open>"ab"\<close> and the value \<open>"abc"\<close>: the list is
  \<open>["abc", "ab"]\<close>.
\<close>

theorem overlap_regression:
  "case new_tree (Some overlap_pairs) of
     Inl e \<Rightarrow> False
   | Inr t \<Rightarrow>
       (case optimize t of
          (Some e, t') \<Rightarrow> False
        | (None, t') \<Rightarrow>
            search t' ''ab'' = [''abc'', ''ab'']
          \<and> ''ab'' \<in> set (search t' ''ab'') \<and> ''abc'' \<in> set (search t' ''ab''))"
  by (simp add: overlap_built optimize_def node_optimize_def coalesce_def search_def
        node_search_def search_inner_def consume_def)

text \<open>
  C3. Adding a pair (sequence, value) to a tree that has not been optimized expands the
  sequence to an atomic sequence \<open>ex\<close> of length \<open>L\<close> and, for every offset \<open>i < L\<close> in
  turn, inserts the tail of \<open>ex\<close> from \<open>i\<close> along one edge per atomic token, creating
  the missing children, and records at the node reached the minimum of the cost recorded
  there for the value so far and \<open>i\<close>. After the call, the node of each tail exists, the
  cost of the value there is the minimum of its earlier cost and the offset, every other
  record is as before, and no recorded cost of any value at any node has increased; the
  same holds across any list of insertions.
\<close>

theorem suffix_insertion:
  assumes "expandSequence sequence = Inr ex" and "\<not> optimized t"
  shows "list_all atomic ex
     \<and> (\<exists>t'. addSequence (sequence, v) t = (None, t') \<and> \<not> optimized t'
          \<and> root t' = fold (\<lambda>i. node_addSequence (drop i ex) v i) [0..<length ex] (root t)
          \<and> (\<forall>i<length ex. walk (map key_of (drop i ex)) (root t') \<noteq> None)
          \<and> (\<forall>i<length ex. cost_at (root t') (map key_of (drop i ex)) v
                = min (cost_at (root t) (map key_of (drop i ex)) v) (enat i))
          \<and> (\<forall>ks v'. (v' \<noteq> v \<or> (\<forall>i<length ex. ks \<noteq> map key_of (drop i ex)))
                \<longrightarrow> cost_at (root t') ks v' = cost_at (root t) ks v')
          \<and> (\<forall>ks v'. cost_at (root t') ks v' \<le> cost_at (root t) ks v'))
     \<and> (\<forall>toks i n ks v'. cost_at (node_addSequence toks v i n) ks v' =
          (if ks = map key_of toks \<and> v' = v then min (cost_at n ks v') (enat i)
           else cost_at n ks v'))
     \<and> (\<forall>pairs ks v'. cost_at (root (snd (addSequences pairs t))) ks v' \<le> cost_at (root t) ks v')"
proof -
  let ?t' = "snd (addSequence_inner (sequence, v) t)"
  have a: "list_all atomic ex" using assms(1) by (rule expandSequence_atomic)
  have b: "addSequence (sequence, v) t = (None, ?t')" "\<not> optimized ?t'"
     "root ?t' = fold (\<lambda>i. node_addSequence (drop i ex) v i) [0..<length ex] (root t)"
    using assms by (simp_all add: addSequence_def addSequence_inner_def)
  have c: "cost_at (root ?t') (map key_of (drop i ex)) v
                = min (cost_at (root t) (map key_of (drop i ex)) v) (enat i)" if "i < length ex" for i
  proof -
    have "length ex - length (map key_of (drop i ex)) = i" using that by simp
    moreover have "\<exists>j<length ex. map key_of (drop i ex) = map key_of (drop j ex)"
      using that by blast
    ultimately show ?thesis
      unfolding cost_at_addSequence_inner[OF assms(1)] by simp
  qed
  have g: "walk (map key_of (drop i ex)) (root ?t') \<noteq> None" if "i < length ex" for i
  proof
    assume "walk (map key_of (drop i ex)) (root ?t') = None"
    then have "cost_at (root ?t') (map key_of (drop i ex)) v = \<infinity>"
      by (simp add: cost_at_def)
    then show False using c[OF that] by (simp add: min_def split: if_splits)
  qed
  have d: "cost_at (root ?t') ks v' = cost_at (root t) ks v'"
    if "v' \<noteq> v \<or> (\<forall>i<length ex. ks \<noteq> map key_of (drop i ex))" for ks v'
    using that unfolding cost_at_addSequence_inner[OF assms(1)] by auto
  have e: "cost_at (root ?t') ks v' \<le> cost_at (root t) ks v'" for ks v'
    by (rule cost_at_addSequence_inner_le)
  have f: "cost_at (root (snd (addSequences pairs t))) ks v' \<le> cost_at (root t) ks v'"
    for pairs ks v'
    using cost_at_addSequences_loop_le[of pairs t ks v'] by (simp add: addSequences_def)
  show ?thesis
  proof (intro conjI)
    show "list_all atomic ex" by (rule a)
    show "\<exists>t'. addSequence (sequence, v) t = (None, t') \<and> \<not> optimized t'
          \<and> root t' = fold (\<lambda>i. node_addSequence (drop i ex) v i) [0..<length ex] (root t)
          \<and> (\<forall>i<length ex. walk (map key_of (drop i ex)) (root t') \<noteq> None)
          \<and> (\<forall>i<length ex. cost_at (root t') (map key_of (drop i ex)) v
                = min (cost_at (root t) (map key_of (drop i ex)) v) (enat i))
          \<and> (\<forall>ks v'. (v' \<noteq> v \<or> (\<forall>i<length ex. ks \<noteq> map key_of (drop i ex)))
                \<longrightarrow> cost_at (root t') ks v' = cost_at (root t) ks v')
          \<and> (\<forall>ks v'. cost_at (root t') ks v' \<le> cost_at (root t) ks v')"
    proof (intro exI[of _ ?t'] conjI allI impI)
      show "addSequence (sequence, v) t = (None, ?t')" by (rule b(1))
      show "\<not> optimized ?t'" by (rule b(2))
      show "root ?t' = fold (\<lambda>i. node_addSequence (drop i ex) v i) [0..<length ex] (root t)"
        by (rule b(3))
      show "walk (map key_of (drop i ex)) (root ?t') \<noteq> None" if "i < length ex" for i
        using that by (rule g)
      show "cost_at (root ?t') (map key_of (drop i ex)) v
                = min (cost_at (root t) (map key_of (drop i ex)) v) (enat i)"
        if "i < length ex" for i
        using that by (rule c)
      show "cost_at (root ?t') ks v' = cost_at (root t) ks v'"
        if "v' \<noteq> v \<or> (\<forall>i<length ex. ks \<noteq> map key_of (drop i ex))" for ks v'
        using that by (rule d)
      show "cost_at (root ?t') ks v' \<le> cost_at (root t) ks v'" for ks v'
        by (rule e)
    qed
    show "\<forall>toks i n ks v'. cost_at (node_addSequence toks v i n) ks v' =
          (if ks = map key_of toks \<and> v' = v then min (cost_at n ks v') (enat i)
           else cost_at n ks v')"
      by (intro allI) (rule cost_at_node_addSequence)
    show "\<forall>pairs ks v'. cost_at (root (snd (addSequences pairs t))) ks v' \<le> cost_at (root t) ks v'"
      by (intro allI) (rule f)
  qed
qed


theorem suffix_insertion_witness:
  "expandSequence [Str ''ab''] = Inr [Str ''a'', Str ''b'']
   \<and> \<not> optimized (empty_tree :: string tree)
   \<and> fst (addSequence ([Str ''ab''], ''v'') empty_tree) = None
   \<and> cost_at (root (snd (addSequence ([Str ''ab''], ''v'') empty_tree))) [''a'', ''b''] ''v'' = 0
   \<and> cost_at (root (snd (addSequence ([Str ''ab''], ''v'') empty_tree))) [''b''] ''v'' = 1
   \<and> cost_at (root (snd (addSequence ([Str ''ab''], ''v'') empty_tree))) [''a''] ''v'' = \<infinity>"
proof -
  have ex: "expandSequence [Str ''ab''] = Inr [Str ''a'', Str ''b'']" by simp
  have no: "\<not> optimized (empty_tree :: string tree)" by (simp add: empty_tree_def)
  note ins = suffix_insertion [OF ex no, of "''v''", THEN conjunct2, THEN conjunct1]
  from ins obtain t' where
    t': "addSequence ([Str ''ab''], ''v'') empty_tree = (None, t')" and
    c: "\<forall>i<length [Str ''a'', Str ''b'']. cost_at (root t') (map key_of (drop i [Str ''a'', Str ''b''])) ''v''
          = min (cost_at (root (empty_tree :: string tree)) (map key_of (drop i [Str ''a'', Str ''b''])) ''v'') (enat i)" and
    d: "\<forall>ks v'. (v' \<noteq> ''v'' \<or> (\<forall>i<length [Str ''a'', Str ''b'']. ks \<noteq> map key_of (drop i [Str ''a'', Str ''b''])))
                \<longrightarrow> cost_at (root t') ks v' = cost_at (root (empty_tree :: string tree)) ks v'"
    by (elim exE conjE) (rule that)
  have c0: "cost_at (root t') [''a'', ''b''] ''v'' = 0"
    using c[rule_format, of 0] by (simp add: empty_tree_def cost_at_empty zero_enat_def)
  have c1: "cost_at (root t') [''b''] ''v'' = 1"
    using c[rule_format, of 1] by (simp add: empty_tree_def cost_at_empty one_enat_def)
  have "\<forall>i<length [Str ''a'', Str ''b'']. [''a''] \<noteq> map key_of (drop i [Str ''a'', Str ''b''])"
    by (simp add: less_Suc_eq)
  then have c2: "cost_at (root t') [''a''] ''v'' = \<infinity>"
    using d[rule_format, of "''v''" "[''a'']"] by (simp add: empty_tree_def cost_at_empty)
  show ?thesis using ex no t' c0 c1 c2 by simp
qed

text \<open>
  C4. For every tree and every query, the list returned by \<open>search\<close> holds each offered
  value once and is sorted ascending by the value's minimum offered cost: whenever \<open>v1\<close>
  precedes \<open>v2\<close> in the list, the minimum cost offered for \<open>v1\<close> over all consumptions of
  the query is at most that offered for \<open>v2\<close>. Values of equal cost keep a fixed relative
  order, the order in which the traversal first offered them.
\<close>

theorem search_ranked:
  "distinct (search t query)
   \<and> set (search t query) = fst ` set (offers (branches (root t)) query)
   \<and> sorted_wrt (\<lambda>v1 v2. best_offer (root t) query v1 \<le> best_offer (root t) query v2) (search t query)
   \<and> (\<forall>c. filter (\<lambda>v. best_offer (root t) query v = enat c) (search t query)
          = filter (\<lambda>v. best_offer (root t) query v = enat c)
              (distinct_first (map fst (offers (branches (root t)) query))))"
proof -
  let ?acc = "search_inner (root t) query"
  let ?S = "sort_key snd ?acc"
  have cost: "best_offer (root t) query (fst kc) = enat (snd kc)" if "kc \<in> set ?acc" for kc
    using search_inner_cost[of "fst kc" "snd kc" "root t" query] that by simp
  have d: "distinct (search t query)"
  proof -
    have "distinct (map fst ?acc)" by (rule search_inner_distinct)
    then have "distinct (map fst ?S)"
      by (metis distinct_map distinct_sort set_sort)
    then show ?thesis by (simp add: search_def node_search_def)
  qed
  have s: "set (search t query) = fst ` set (offers (branches (root t)) query)"
  proof -
    have "set (search t query) = set (map fst ?acc)" by (simp add: search_def node_search_def)
    also have "\<dots> = set (distinct_first (map fst (offers (branches (root t)) query)))"
      by (simp only: search_inner_keys)
    also have "\<dots> = fst ` set (offers (branches (root t)) query)"
    proof -
      have "set (distinct_first xs) = set xs" for xs :: "'a list"
        by (induction xs) auto
      then show ?thesis by simp
    qed
    finally show ?thesis .
  qed
  have r: "sorted_wrt (\<lambda>v1 v2. best_offer (root t) query v1 \<le> best_offer (root t) query v2) (search t query)"
  proof -
    have "sorted (map snd ?S)" by simp
    then have "sorted_wrt (\<lambda>x y. snd x \<le> snd y) ?S" by (simp add: sorted_map)
    then have "sorted_wrt (\<lambda>x y. best_offer (root t) query (fst x) \<le> best_offer (root t) query (fst y)) ?S"
      by (rule sorted_wrt_mono_rel[rotated]) (simp add: cost)
    then show ?thesis by (simp add: search_def node_search_def sorted_wrt_map)
  qed
  have t: "filter (\<lambda>v. best_offer (root t) query v = enat c) (search t query)
          = filter (\<lambda>v. best_offer (root t) query v = enat c)
              (distinct_first (map fst (offers (branches (root t)) query)))" for c
  proof -
    have "filter (\<lambda>v. best_offer (root t) query v = enat c) (search t query)
            = map fst (filter (\<lambda>kc. best_offer (root t) query (fst kc) = enat c) ?S)"
      by (simp add: search_def node_search_def filter_map comp_def)
    also have "filter (\<lambda>kc. best_offer (root t) query (fst kc) = enat c) ?S = filter (\<lambda>kc. snd kc = c) ?S"
      by (intro filter_cong) (simp_all add: cost)
    also have "\<dots> = filter (\<lambda>kc. snd kc = c) ?acc" by (rule sort_key_stable)
    also have "\<dots> = filter (\<lambda>kc. best_offer (root t) query (fst kc) = enat c) ?acc"
      by (intro filter_cong) (simp_all add: cost)
    also have "map fst \<dots> = filter (\<lambda>v. best_offer (root t) query v = enat c) (map fst ?acc)"
      by (simp add: filter_map comp_def)
    finally show ?thesis by (simp only: search_inner_keys)
  qed
  show ?thesis using d s r t by blast
qed

text \<open>
  C5. For every token that is an anchored pattern and every non-empty query string,
  \<open>consume\<close> takes the pattern's left-aligned match against the query: when there is one,
  the query is the matched text followed by a remainder and \<open>consume\<close> returns that
  remainder (the query with the matched length removed from its front); when there is
  none, \<open>consume\<close> returns no-match.
\<close>

theorem consume_anchored_pattern:
  assumes "anchored re" and "query \<noteq> []"
  shows "case exec re query of
           None \<Rightarrow> consume (Rx re) query = None
         | Some m \<Rightarrow>
             consume (Rx re) query = Some (drop (length m) query)
           \<and> query = m @ drop (length m) query"
proof (cases "exec re query")
  case None
  then show ?thesis using assms(2) by (simp add: consume_def)
next
  case (Some m)
  then have "prefix m query" using assms(1) by (simp add: anchored_def)
  then have "query = m @ drop (length m) query" by (auto simp: prefix_def)
  then show ?thesis using Some assms(2) by (simp add: consume_def)
qed

theorem consume_anchored_pattern_witness:
  "anchored rx_e_plus \<and> ''eeet'' \<noteq> [] \<and> consume (Rx rx_e_plus) ''eeet'' = Some ''t''
   \<and> consume (Rx rx_e_plus) ''t'' = None"
proof -
  have ex: "exec rx_e_plus ''eeet'' = Some ''eee''" "exec rx_e_plus ''t'' = None"
    by (simp_all add: rx_e_plus_def)
  have "consume (Rx rx_e_plus) ''eeet'' = Some ''t''"
    using consume_anchored_pattern [OF anchored_rx_e_plus, of "''eeet''"] ex by simp
  moreover have "consume (Rx rx_e_plus) ''t'' = None"
    using consume_anchored_pattern [OF anchored_rx_e_plus, of "''t''"] ex by simp
  ultimately show ?thesis using anchored_rx_e_plus by simp
qed

text \<open>
  C6. For every node and query, \<open>has\<close> scans the outgoing edges in container order and
  decides on the first edge whose \<open>consume\<close> succeeds: it returns true when the remainder
  is empty and otherwise the result of recursing into that branch only, never trying the
  sibling edges (and false when no edge succeeds). For the tree built from
  \<open>([/^a/, "x"], "v1")\<close> and \<open>(["ab"], "v2")\<close> and the query \<open>"ab"\<close>, \<open>has\<close>
  returns false while \<open>search\<close> returns the non-empty list \<open>["v2"]\<close>.
\<close>

theorem has_first_match_only:
  "node_has n query =
     (case find (\<lambda>(tok, b). consume tok query \<noteq> None) (branches n) of
        None \<Rightarrow> False
      | Some (tok, b) \<Rightarrow>
          (case consume tok query of
             None \<Rightarrow> False
           | Some nextQuery \<Rightarrow> nextQuery = [] \<or> node_has b nextQuery))
   \<and> (case new_tree (Some first_match_pairs) of
        Inl e \<Rightarrow> False
      | Inr t \<Rightarrow> has t ''ab'' = False \<and> search t ''ab'' = [''v2''])"
proof -
  have "has_loop (branches n) query =
     (case find (\<lambda>(tok, b). consume tok query \<noteq> None) (branches n) of
        None \<Rightarrow> False
      | Some (tok, b) \<Rightarrow>
          (case consume tok query of
             None \<Rightarrow> False
           | Some nextQuery \<Rightarrow> nextQuery = [] \<or> has_loop (branches b) nextQuery))"
    by (rule has_loop_find)
  moreover have "case new_tree (Some first_match_pairs) of
        Inl e \<Rightarrow> False
      | Inr t \<Rightarrow> has t ''ab'' = False \<and> search t ''ab'' = [''v2'']"
    by (simp add: first_match_built has_def node_has_def search_def node_search_def
          search_inner_def consume_def rx_a_def)
  ultimately show ?thesis unfolding node_has_def by simp
qed

text \<open>
  C7. A call of \<open>optimize\<close> that returns leaves the tree marked as optimized. On every
  tree so marked, \<open>addSequence\<close> and \<open>addSequences\<close> fail with the error of a tree that
  no longer accepts sequences, and \<open>optimize\<close> itself fails with the error ``already
  optimized'' (it is not idempotent); each leaves the tree as it was. On a tree not yet
  optimized, none of these calls raises either of the two errors, and \<open>optimize\<close> succeeds.
\<close>

theorem sealed_lifecycle:
  "(optimize t = (None, t') \<longrightarrow> optimized t')
   \<and> (optimized t \<longrightarrow>
        addSequence pair t = (Some NoLongerAcceptingSequences, t)
      \<and> addSequences pairs t = (Some NoLongerAcceptingSequences, t)
      \<and> optimize t = (Some AlreadyOptimized, t))
   \<and> (\<not> optimized t \<longrightarrow>
        fst (addSequence pair t) \<noteq> Some NoLongerAcceptingSequences
      \<and> fst (addSequences pairs t) \<noteq> Some NoLongerAcceptingSequences
      \<and> fst (addSequence pair t) \<noteq> Some AlreadyOptimized
      \<and> fst (addSequences pairs t) \<noteq> Some AlreadyOptimized
      \<and> fst (optimize t) = None)"
proof -
  have "e = RegexMustStartWithCaret" if "fst (addSequence_inner pair t) = Some e" for e
    using that by (auto simp: addSequence_inner_def split: sum.splits dest: expandSequence_error)
  moreover have "e = RegexMustStartWithCaret" if "fst (addSequences_loop pairs t) = Some e" for e
    using that by (rule addSequences_loop_error)
  ultimately show ?thesis
    by (auto simp: optimize_def addSequence_def addSequences_def split: if_splits)
qed

theorem sealed_lifecycle_witness:
  "\<not> optimized (empty_tree :: string tree)
   \<and> fst (addSequence ([Str ''a''], ''v'') empty_tree) = None
   \<and> fst (optimize (empty_tree :: string tree)) = None
   \<and> optimized (snd (optimize (empty_tree :: string tree)))
   \<and> fst (addSequence ([Str ''a''], ''v'') (snd (optimize empty_tree)))
        = Some NoLongerAcceptingSequences
   \<and> fst (addSequences [] (snd (optimize (empty_tree :: string tree))))
        = Some NoLongerAcceptingSequences
   \<and> fst (optimize (snd (optimize (empty_tree :: string tree)))) = Some AlreadyOptimized"
  using sealed_lifecycle [of "empty_tree :: string tree" "snd (optimize empty_tree)"
          "([Str ''a''], ''v'')" "[]"]
        sealed_lifecycle [of "snd (optimize (empty_tree :: string tree))" "empty_tree"
          "([Str ''a''], ''v'')" "[]"]
  by (simp add: empty_tree_def optimize_def addSequence_def addSequence_inner_def)

text \<open>
  C8. For every sequence containing a pattern token whose source text does not begin with
  the start-of-text anchor \<open>^\<close>, expanding that sequence fails with the validation error,
  and so do the constructor given that sequence among its pairs and, on a tree that has not
  been optimized, \<open>addSequence\<close> and \<open>addSequences\<close> given it.
\<close>

theorem unanchored_pattern_rejected:
  assumes "Rx re \<in> set sequence" and "\<not> prefix ''^'' (source re)"
  shows "expandSequence sequence = Inl RegexMustStartWithCaret
       \<and> (\<not> optimized t \<longrightarrow> fst (addSequence (sequence, v) t) = Some RegexMustStartWithCaret)
       \<and> (\<not> optimized t \<longrightarrow> (sequence, v) \<in> set pairs \<longrightarrow>
            fst (addSequences pairs t) = Some RegexMustStartWithCaret)
       \<and> ((sequence, v) \<in> set pairs \<longrightarrow> new_tree (Some pairs) = Inl RegexMustStartWithCaret)"
proof -
  have ex: "expandSequence sequence = Inl RegexMustStartWithCaret"
    using assms by (rule expandSequence_unanchored)
  have loop: "fst (addSequences_loop pairs t') = Some RegexMustStartWithCaret"
    if "(sequence, v) \<in> set pairs" for t' :: "'a tree"
    using that ex by (rule addSequences_loop_unanchored)
  have new: "new_tree (Some pairs) = Inl RegexMustStartWithCaret" if "(sequence, v) \<in> set pairs"
    using loop[OF that, of empty_tree]
    by (cases "addSequences_loop pairs (empty_tree :: 'a tree)")
       (simp add: new_tree_def addSequences_def empty_tree_def)
  show ?thesis
    using ex loop new by (simp add: addSequence_def addSequence_inner_def addSequences_def)
qed

theorem unanchored_pattern_rejected_witness:
  "Rx rx_unanchored \<in> set [Str ''ab'', Rx rx_unanchored] \<and> \<not> prefix ''^'' (source rx_unanchored)
   \<and> expandSequence [Str ''ab'', Rx rx_unanchored] = Inl RegexMustStartWithCaret
   \<and> fst (addSequence ([Str ''ab'', Rx rx_unanchored], ''v1'') empty_tree)
       = Some RegexMustStartWithCaret
   \<and> new_tree (Some [([Str ''x''], ''v0''), ([Str ''ab'', Rx rx_unanchored], ''v1'')])
       = Inl RegexMustStartWithCaret"
  using unanchored_pattern_rejected [of rx_unanchored "[Str ''ab'', Rx rx_unanchored]"
          "empty_tree" "''v1''" "[([Str ''x''], ''v0''), ([Str ''ab'', Rx rx_unanchored], ''v1'')]"]
  by (simp add: rx_unanchored_def empty_tree_def)

text \<open>
  C9. When a single \<open>addSequence\<close> call is given a pair whose sequence contains an
  unanchored pattern token, the validation error is raised by the expansion of the whole
  sequence, before any node is created or any value or cost is recorded: the failing call
  leaves the tree, with everything earlier calls inserted, exactly as it was.
\<close>

theorem failed_insertion_leaves_tree:
  assumes "Rx re \<in> set sequence" and "\<not> prefix ''^'' (source re)"
  shows "snd (addSequence (sequence, v) t) = t
       \<and> (\<not> optimized t \<longrightarrow> addSequence (sequence, v) t = (Some RegexMustStartWithCaret, t))"
  using expandSequence_unanchored [OF assms]
  by (simp add: addSequence_def addSequence_inner_def)

theorem failed_insertion_leaves_tree_witness:
  "Rx rx_unanchored \<in> set [Str ''ab'', Rx rx_unanchored] \<and> \<not> prefix ''^'' (source rx_unanchored)
   \<and> \<not> optimized (empty_tree :: string tree)
   \<and> addSequence ([Str ''ab'', Rx rx_unanchored], ''v1'') empty_tree
       = (Some RegexMustStartWithCaret, empty_tree)"
  using failed_insertion_leaves_tree [of rx_unanchored "[Str ''ab'', Rx rx_unanchored]"
          "''v1''" "empty_tree"]
  by (simp add: rx_unanchored_def empty_tree_def)

text \<open>
  C10. A pair whose sequence expands to an atomic sequence of length 0 is silently ignored
  by insertion: the call returns normally and leaves the tree as it was, so that no search
  result changes, and the tree built from that pair alone is the empty tree, on which
  \<open>search\<close> returns the empty list for every query, the empty query included.
\<close>

theorem empty_sequence_ignored:
  assumes "expandSequence sequence = Inr []"
  shows "snd (addSequence (sequence, v) t) = t
       \<and> (\<not> optimized t \<longrightarrow> addSequence (sequence, v) t = (None, t))
       \<and> (\<forall>q. search (snd (addSequence (sequence, v) t)) q = search t q)
       \<and> new_tree (Some [(sequence, v)]) = Inr empty_tree
       \<and> (\<forall>q. search (empty_tree :: 'a tree) q = [])"
  using assms
  by (simp add: addSequence_def addSequence_inner_def new_tree_def addSequences_def
        empty_tree_def search_def node_search_def search_inner_def)

theorem empty_sequence_ignored_witness:
  "expandSequence [Str '''', Str ''''] = Inr []
   \<and> new_tree (Some [([Str '''', Str ''''], ''v'')]) = Inr empty_tree
   \<and> search (snd (addSequence ([Str '''', Str ''''], ''v'') empty_tree)) '''' = []"
proof -
  have ex: "expandSequence [Str '''', Str ''''] = Inr []" by simp
  show ?thesis using empty_sequence_ignored [OF ex, of "''v''" "empty_tree"] ex by metis
qed

end
